theory Spec2Isabelle
  imports Complex_Main "HOL-Library.Sublist"
begin

section \<open>JavaScript strings\<close>

text \<open>
  Template literals print a non-negative integer in decimal
  (\<^verbatim>\<open>`${Date.now()}`\<close>, \<^verbatim>\<open>`${maxSizeInMB}`\<close>).
\<close>

definition digit_char :: "nat \<Rightarrow> char" where
  "digit_char d = ''0123456789'' ! d"

fun string_of_nat :: "nat \<Rightarrow> string" where
  "string_of_nat n =
     (if n < 10 then [digit_char n]
      else string_of_nat (n div 10) @ [digit_char (n mod 10)])"

declare string_of_nat.simps [simp del]

text \<open>
  \<^verbatim>\<open>String.prototype.split(sep)\<close> for a non-empty separator: the pieces between the
  occurrences of \<open>sep\<close>, found from left to right without overlap. The result is never
  empty (a string without the separator is its own single piece). \<open>cur\<close> is the piece
  being read.
\<close>

function js_split_from :: "string \<Rightarrow> string \<Rightarrow> string \<Rightarrow> string list" where
  "js_split_from sep cur [] = [cur]"
| "js_split_from sep cur (c # cs) =
     (if sep \<noteq> [] \<and> prefix sep (c # cs)
      then cur # js_split_from sep [] (drop (length sep) (c # cs))
      else js_split_from sep (cur @ [c]) cs)"
  by pat_completeness auto
termination
  by (relation "measure (\<lambda>(sep, cur, s). length s)") auto

definition js_split :: "string \<Rightarrow> string \<Rightarrow> string list" where
  "js_split sep s = js_split_from sep [] s"

text \<open>Indexing an array: out of range is \<^verbatim>\<open>undefined\<close>, here \<open>None\<close>.\<close>

definition js_index :: "'a list \<Rightarrow> nat \<Rightarrow> 'a option" where
  "js_index xs i = (if i < length xs then Some (xs ! i) else None)"

text \<open>\<^verbatim>\<open>Array.prototype.join(sep)\<close>.\<close>

fun js_join :: "string \<Rightarrow> string list \<Rightarrow> string" where
  "js_join sep [] = []"
| "js_join sep [x] = x"
| "js_join sep (x # y # ys) = x @ sep @ js_join sep (y # ys)"

text \<open>\<^verbatim>\<open>toLowerCase()\<close> on the ASCII letters (the extensions compared are ASCII).\<close>

definition lower_char :: "char \<Rightarrow> char" where
  "lower_char c =
     (let n = (of_char c :: nat) in if 65 \<le> n \<and> n \<le> 90 then char_of (n + 32) else c)"

definition toLowerCase :: "string \<Rightarrow> string" where
  "toLowerCase s = map lower_char s"

section \<open>The files of the dropzone uploader\<close>

text \<open>The browser's \<^verbatim>\<open>File\<close>: declared name, declared MIME type and size in bytes.\<close>

record candidate =
  file_name :: string
  file_type :: string
  file_size :: nat

datatype status = Pending | Uploading | Success | Error

text \<open>
  A transfer is named by the \<^verbatim>\<open>handleUpload\<close> call that started it and its position
  among that call's \<^verbatim>\<open>pendingFiles\<close>.
\<close>

type_synonym task_id = "nat \<times> nat"

text \<open>
  \<^verbatim>\<open>FileWithPreview\<close>. Its \<^verbatim>\<open>name\<close>, \<^verbatim>\<open>size\<close> and \<^verbatim>\<open>type\<close> are copies of the
  \<^verbatim>\<open>File\<close>'s and never change; they are read through \<open>originalFile\<close>. \<open>preview\<close> says
  whether an object URL was made. \<open>uploadProgress\<close> is a JavaScript number: \<open>None\<close>
  stands for the result of a division by zero. \<open>xhr\<close> names the transfer whose
  \<^verbatim>\<open>XMLHttpRequest\<close> the field holds.
\<close>

record file_with_preview =
  file_id :: string
  originalFile :: candidate
  preview :: bool
  uploadProgress :: "rat option"
  status :: status
  errorMessage :: "string option"
  xhr :: "task_id option"

section \<open>Validation\<close>

definition MAX_IMAGE_SIZE :: nat where
  "MAX_IMAGE_SIZE = 5 * 1024 * 1024"

definition MAX_VIDEO_SIZE :: nat where
  "MAX_VIDEO_SIZE = 50 * 1024 * 1024"

definition isImage :: "candidate \<Rightarrow> bool" where
  "isImage file = prefix ''image/'' (file_type file)"

definition maxSize :: "candidate \<Rightarrow> nat" where
  "maxSize file = (if isImage file then MAX_IMAGE_SIZE else MAX_VIDEO_SIZE)"

text \<open>\<^verbatim>\<open>maxSize / (1024 * 1024)\<close>; both limits are whole numbers of megabytes.\<close>

definition maxSizeInMB :: "candidate \<Rightarrow> nat" where
  "maxSizeInMB file = maxSize file div (1024 * 1024)"

text \<open>\<^verbatim>\<open>FileError\<close> of react-dropzone.\<close>

record file_error =
  err_code :: string
  err_message :: string

text \<open>The \<^verbatim>\<open>validator\<close> option given to \<^verbatim>\<open>useDropzone\<close>.\<close>

definition validator :: "candidate \<Rightarrow> file_error option" where
  "validator file =
     (if file_size file > maxSize file
      then Some \<lparr>err_code = ''file-too-large'',
                 err_message = ''File is larger than '' @ string_of_nat (maxSizeInMB file) @ '' MB''\<rparr>
      else None)"

text \<open>The message \<^verbatim>\<open>onDrop\<close> reports for one error of a rejected file.\<close>

definition rejection_message :: "candidate \<Rightarrow> file_error \<Rightarrow> string" where
  "rejection_message file error =
     (if err_code error = ''file-too-large''
      then file_name file @ '' is too large. Maximum size is '' @ string_of_nat (maxSizeInMB file) @ ''MB''
      else if err_code error = ''file-invalid-type''
      then file_name file @
        '' has an invalid file type. Only images (JPG, PNG, WebP, GIF) and videos (MP4, MOV, AVI, WebM) are allowed''
      else file_name file @ '': '' @ err_message error)"

text \<open>
  The calls a component makes to its two callbacks, \<^verbatim>\<open>onUploadComplete(urls)\<close> and
  \<^verbatim>\<open>onError(message)\<close>. The tag noted beside a URL or a failure message is bookkeeping
  of the model (which transfer or file produced it): the callbacks receive the strings
  only.
\<close>

datatype 'tag callback =
    OnUploadComplete "('tag \<times> string) list"
  | OnError "'tag option" string

text \<open>
  The accepted files of \<^verbatim>\<open>onDrop\<close>, each with the value \<^verbatim>\<open>Date.now()\<close> has when the
  file is processed: a file over its limit is reported and dropped, the others become
  pending files.
\<close>

definition accepted_error :: "candidate \<Rightarrow> string" where
  "accepted_error file =
     file_name file @ '' exceeds the '' @ string_of_nat (maxSizeInMB file) @ ''MB size limit''"

definition fileWithPreview :: "candidate \<Rightarrow> nat \<Rightarrow> file_with_preview" where
  "fileWithPreview file now =
     \<lparr>file_id = file_name file @ ''-'' @ string_of_nat now,
      originalFile = file,
      preview = isImage file,
      uploadProgress = Some 0,
      status = Pending,
      errorMessage = None,
      xhr = None\<rparr>"

definition newFiles :: "(candidate \<times> nat) list \<Rightarrow> file_with_preview list" where
  "newFiles acceptedFiles =
     map (\<lambda>(file, now). fileWithPreview file now)
       (filter (\<lambda>(file, now). \<not> file_size file > maxSize file) acceptedFiles)"

definition onDrop_errors ::
  "(candidate \<times> nat) list \<Rightarrow> (candidate \<times> file_error list) list \<Rightarrow> task_id callback list" where
  "onDrop_errors acceptedFiles fileRejections =
     concat (map (\<lambda>(file, errors). map (\<lambda>e. OnError None (rejection_message file e)) errors)
               fileRejections)
     @ map (\<lambda>(file, now). OnError None (accepted_error file))
         (filter (\<lambda>(file, now). file_size file > maxSize file) acceptedFiles)"

text \<open>
  \<^verbatim>\<open>getFileIcon\<close>: the icon shown for a file of the list, by MIME type first and by the
  file name's extension when the type does not decide.
\<close>

datatype icon = ImagePreview | ImageIcon | Film | FileIcon

definition extension :: "string \<Rightarrow> string" where
  "extension fileName = toLowerCase (last (js_split ''.'' fileName))"

definition getFileIcon :: "file_with_preview \<Rightarrow> icon" where
  "getFileIcon file =
     (let fileType = file_type (originalFile file); fileName = file_name (originalFile file) in
      if prefix ''image/'' fileType then (if preview file then ImagePreview else ImageIcon)
      else if prefix ''video/'' fileType then Film
      else if fileName \<noteq> [] \<and> extension fileName \<in> set [''jpg'', ''jpeg'', ''png'', ''gif'', ''webp'']
      then (if preview file then ImagePreview else ImageIcon)
      else if fileName \<noteq> [] \<and> extension fileName \<in> set [''mp4'', ''mov'', ''avi'', ''webm'']
      then Film
      else FileIcon)"

section \<open>The signed-URL exchange\<close>

text \<open>
  In this section a string is read as the sequence of its UTF-8 bytes: percent-encoding
  writes bytes, and every separator the code splits on is a sequence of ASCII bytes.
\<close>

subsection \<open>Percent-encoding\<close>

text \<open>
  The bytes that percent-encoding leaves as they are: letters, digits and \<^verbatim>\<open>-_.~\<close>.
\<close>

definition unreserved :: "char \<Rightarrow> bool" where
  "unreserved c =
     (c \<in> set ''ABCDEFGHIJKLMNOPQRSTUVWXYZabcdefghijklmnopqrstuvwxyz0123456789-_.~'')"

definition hex_digit :: "nat \<Rightarrow> char" where
  "hex_digit d = ''0123456789ABCDEF'' ! d"

text \<open>Any other byte is written as \<^verbatim>\<open>%\<close> and two upper-case hexadecimal digits.\<close>

definition percent_escape :: "char \<Rightarrow> string" where
  "percent_escape c =
     [CHR ''%'', hex_digit ((of_char c :: nat) div 16), hex_digit ((of_char c :: nat) mod 16)]"

text \<open>
  \<^verbatim>\<open>extendedEncodeURIComponent\<close> of the storage SDK: \<^verbatim>\<open>encodeURIComponent\<close>, with
  \<^verbatim>\<open>!'()*\<close> escaped as well.
\<close>

definition extendedEncodeURIComponent :: "string \<Rightarrow> string" where
  "extendedEncodeURIComponent s =
     concat (map (\<lambda>c. if unreserved c then [c] else percent_escape c) s)"

text \<open>
  The SDK writes the key of an object into the path of the request with every segment
  between slashes encoded on its own:
  \<^verbatim>\<open>Key.split('/').map(extendedEncodeURIComponent).join('/')\<close>.
\<close>

definition encode_key :: "string \<Rightarrow> string" where
  "encode_key key = js_join ''/'' (map extendedEncodeURIComponent (js_split ''/'' key))"

text \<open>
  What that does to one byte of a key: a slash and an unreserved byte stay, any other
  byte is escaped.
\<close>

definition key_char :: "char \<Rightarrow> string" where
  "key_char c = (if c = CHR ''/'' \<or> unreserved c then [c] else percent_escape c)"

text \<open>
  A byte that stands for itself in an encoded key and is no part of any escape: a slash,
  or an unreserved byte that is not an upper-case hexadecimal digit.
\<close>

definition key_plain :: "char \<Rightarrow> bool" where
  "key_plain c = (c = CHR ''/'' \<or> (unreserved c \<and> c \<notin> set ''0123456789ABCDEF''))"

subsection \<open>Reading a query\<close>

definition hex_value :: "char \<Rightarrow> nat option" where
  "hex_value c =
     map_of
       [(CHR ''0'', 0), (CHR ''1'', 1), (CHR ''2'', 2), (CHR ''3'', 3), (CHR ''4'', 4),
        (CHR ''5'', 5), (CHR ''6'', 6), (CHR ''7'', 7), (CHR ''8'', 8), (CHR ''9'', 9),
        (CHR ''A'', 10), (CHR ''B'', 11), (CHR ''C'', 12), (CHR ''D'', 13), (CHR ''E'', 14),
        (CHR ''F'', 15),
        (CHR ''a'', 10), (CHR ''b'', 11), (CHR ''c'', 12), (CHR ''d'', 13), (CHR ''e'', 14),
        (CHR ''f'', 15)] c"

text \<open>
  Percent-decoding, as the URL standard defines it: \<^verbatim>\<open>%\<close> and two hexadecimal digits
  give one byte; a \<^verbatim>\<open>%\<close> that is not followed by two hexadecimal digits stays.
\<close>

fun percent_decode :: "string \<Rightarrow> string" where
  "percent_decode (c # h1 # h2 # cs) =
     (if c = CHR ''%''
      then (case (hex_value h1, hex_value h2) of
              (Some a, Some b) \<Rightarrow> char_of (16 * a + b) # percent_decode cs
            | _ \<Rightarrow> c # percent_decode (h1 # h2 # cs))
      else c # percent_decode (h1 # h2 # cs))"
| "percent_decode (c # cs) = c # percent_decode cs"
| "percent_decode [] = []"

text \<open>
  A name or a value of \<^verbatim>\<open>URLSearchParams\<close>: \<^verbatim>\<open>+\<close> is read as a space, then the text
  is percent-decoded.
\<close>

definition form_decode :: "string \<Rightarrow> string" where
  "form_decode s = percent_decode (map (\<lambda>c. if c = CHR ''+'' then CHR '' '' else c) s)"

text \<open>
  The query of a URL: what stands between the first \<^verbatim>\<open>?\<close> and the fragment. (A byte
  that the browser escapes on the way, such as a space, is read back by
  \<^verbatim>\<open>percent_decode\<close> and needs no case of its own.)
\<close>

definition url_query :: "string \<Rightarrow> string" where
  "url_query url =
     drop 1 (dropWhile (\<lambda>c. c \<noteq> CHR ''?'') (takeWhile (\<lambda>c. c \<noteq> CHR ''#'') url))"

text \<open>
  \<^verbatim>\<open>new URL(request.url).searchParams\<close>: the query is cut at every \<^verbatim>\<open>&\<close>, empty
  pieces are skipped, and a piece is cut at its first \<^verbatim>\<open>=\<close> into name and value.
  \<^verbatim>\<open>get(name)\<close> is the value of the first pair of that name.
\<close>

definition form_pair :: "string \<Rightarrow> string \<times> string" where
  "form_pair piece =
     (form_decode (takeWhile (\<lambda>c. c \<noteq> CHR ''='') piece),
      form_decode (drop 1 (dropWhile (\<lambda>c. c \<noteq> CHR ''='') piece)))"

definition searchParams :: "string \<Rightarrow> (string \<times> string) list" where
  "searchParams url =
     map form_pair (filter (\<lambda>piece. piece \<noteq> []) (js_split ''&'' (url_query url)))"

definition searchParams_get :: "string \<Rightarrow> string \<Rightarrow> string option" where
  "searchParams_get name url = map_option snd (find (\<lambda>p. fst p = name) (searchParams url))"

subsection \<open>The two requests\<close>

text \<open>
  The key the client writes into the view-URL request,
  \<^verbatim>\<open>uploadURL.split('?')[0].split('/uploads/')[1]\<close> put behind \<^verbatim>\<open>uploads/\<close>. A missing
  second piece prints as \<^verbatim>\<open>undefined\<close>. \<open>None\<close> is the \<^verbatim>\<open>TypeError\<close> of splitting a
  missing first piece.
\<close>

definition object_key :: "string \<Rightarrow> string option" where
  "object_key uploadURL =
     (case js_index (js_split ''?'' uploadURL) 0 of
        None \<Rightarrow> None
      | Some path \<Rightarrow>
          Some (''uploads/'' @
            (case js_index (js_split ''/uploads/'' path) 1 of
               None \<Rightarrow> ''undefined''
             | Some key \<Rightarrow> key)))"

definition view_request :: "string \<Rightarrow> string" where
  "view_request key = ''/api/upload?key='' @ key"

text \<open>
  The backend's \<^verbatim>\<open>POST\<close>: the storage key is \<^verbatim>\<open>`uploads/${Date.now()}-${filename}`\<close>.
\<close>

definition storage_key :: "nat \<Rightarrow> string \<Rightarrow> string" where
  "storage_key now filename = ''uploads/'' @ string_of_nat now @ ''-'' @ filename"

text \<open>
  \<^verbatim>\<open>getSignedUrl\<close> belongs to the storage SDK, which is not part of the repository.
  What is used of it here: the signed URL is the storage endpoint (scheme and host, as
  the SDK derives them from region and bucket), the encoded key as its path, and the
  signing parameters as its query.
\<close>

definition getSignedUrl :: "string \<Rightarrow> string \<Rightarrow> string \<Rightarrow> string" where
  "getSignedUrl endpoint key signature = endpoint @ ''/'' @ encode_key key @ ''?'' @ signature"

definition POST_uploadURL :: "string \<Rightarrow> string \<Rightarrow> nat \<Rightarrow> string \<Rightarrow> string" where
  "POST_uploadURL endpoint signature now filename =
     getSignedUrl endpoint (storage_key now filename) signature"

text \<open>
  The backend's \<^verbatim>\<open>GET\<close>: the view URL is the signed URL of the object whose key is the
  \<^verbatim>\<open>key\<close> parameter of the request. \<open>None\<close> is the answer 400 to a request without a
  key.
\<close>

definition GET_url :: "string \<Rightarrow> string \<Rightarrow> string \<Rightarrow> string option" where
  "GET_url endpoint signature request_url =
     (case searchParams_get ''key'' request_url of
        None \<Rightarrow> None
      | Some key \<Rightarrow> if key = [] then None else Some (getSignedUrl endpoint key signature))"

section \<open>The dropzone uploader as a machine\<close>

text \<open>
  Where the promise of one file's \<^verbatim>\<open>uploadFile\<close> call stands:
  \<^item> \<open>AwaitingUploadURL\<close>: the \<^verbatim>\<open>POST\<close> for the write URL is outstanding;
  \<^item> \<open>Sending uploadURL\<close>: \<^verbatim>\<open>xhr.send\<close> was called and neither \<^verbatim>\<open>onload\<close> nor
    \<^verbatim>\<open>onerror\<close> has run;
  \<^item> \<open>AwaitingViewURL request\<close>: \<^verbatim>\<open>onload\<close> saw status 200 and awaits the view URL;
  \<^item> \<open>Aborted\<close>: \<^verbatim>\<open>xhr.abort()\<close> was called while sending. An aborted request fires
    neither \<^verbatim>\<open>onload\<close> nor \<^verbatim>\<open>onerror\<close>, and no other handler is registered;
  \<^item> \<open>Unsettled\<close>: the asynchronous \<^verbatim>\<open>onload\<close> handler threw. The exception rejects the
    handler's own promise; \<^verbatim>\<open>resolve\<close> and \<^verbatim>\<open>reject\<close> of the promise \<^verbatim>\<open>uploadFile\<close>
    returned are never called;
  \<^item> \<open>Settled\<close>: the \<^verbatim>\<open>try\<close>/\<^verbatim>\<open>catch\<close> of \<^verbatim>\<open>handleUpload\<close> around this file has
    finished.
\<close>

datatype phase =
    AwaitingUploadURL
  | Sending string
  | AwaitingViewURL string
  | Aborted
  | Unsettled
  | Settled

text \<open>One element of \<^verbatim>\<open>pendingFiles.map(async (file) => ...)\<close>: the file the closure holds.\<close>

record task =
  task_file :: file_with_preview
  phase :: phase

text \<open>One call of \<^verbatim>\<open>handleUpload\<close>: its \<^verbatim>\<open>uploadedUrls\<close> and the promises given to \<^verbatim>\<open>Promise.all\<close>.\<close>

record batch =
  uploadedUrls :: "(task_id \<times> string) list"
  tasks :: "task list"

text \<open>
  The component: the three \<^verbatim>\<open>useState\<close> cells, the \<^verbatim>\<open>handleUpload\<close> calls made so far,
  and the calls to \<^verbatim>\<open>onUploadComplete\<close> and \<^verbatim>\<open>onError\<close> in the order they were made.
\<close>

record dropzone =
  files :: "file_with_preview list"
  dialog_open :: bool
  isUploading :: bool
  batches :: "batch list"
  calls :: "task_id callback list"

definition initial :: dropzone where
  "initial = \<lparr>files = [], dialog_open = False, isUploading = False, batches = [], calls = []\<rparr>"

definition get_task :: "dropzone \<Rightarrow> task_id \<Rightarrow> task option" where
  "get_task s t =
     (case js_index (batches s) (fst t) of
        None \<Rightarrow> None
      | Some b \<Rightarrow> js_index (tasks b) (snd t))"

definition get_phase :: "dropzone \<Rightarrow> task_id \<Rightarrow> phase option" where
  "get_phase s t = map_option phase (get_task s t)"

definition set_phase :: "task_id \<Rightarrow> phase \<Rightarrow> dropzone \<Rightarrow> dropzone" where
  "set_phase t p s =
     s\<lparr>batches := (batches s)
        [fst t := (batches s ! fst t)
           \<lparr>tasks := (tasks (batches s ! fst t))
              [snd t := (tasks (batches s ! fst t) ! snd t)\<lparr>phase := p\<rparr>]\<rparr>]\<rparr>"

text \<open>\<^verbatim>\<open>setFiles(prev => prev.map(f => f.id === fileId ? g(f) : f))\<close>.\<close>

definition setFiles_map :: "string \<Rightarrow> (file_with_preview \<Rightarrow> file_with_preview) \<Rightarrow> dropzone \<Rightarrow> dropzone" where
  "setFiles_map fileId g s = s\<lparr>files := map (\<lambda>f. if file_id f = fileId then g f else f) (files s)\<rparr>"

definition call :: "task_id callback \<Rightarrow> dropzone \<Rightarrow> dropzone" where
  "call c s = s\<lparr>calls := calls s @ [c]\<rparr>"

text \<open>\<^verbatim>\<open>uploadedUrls.push(url)\<close> in the \<^verbatim>\<open>handleUpload\<close> call of transfer \<open>t\<close>.\<close>

definition push_url :: "task_id \<Rightarrow> string \<Rightarrow> dropzone \<Rightarrow> dropzone" where
  "push_url t url s =
     s\<lparr>batches := (batches s)
        [fst t := (batches s ! fst t)
           \<lparr>uploadedUrls := uploadedUrls (batches s ! fst t) @ [(t, url)]\<rparr>]\<rparr>"

text \<open>
  The effect on \<^verbatim>\<open>[open, files]\<close>: a closed dialog with files clears them.
\<close>

definition clear_when_closed :: "dropzone \<Rightarrow> dropzone" where
  "clear_when_closed s = (if \<not> dialog_open s \<and> files s \<noteq> [] then s\<lparr>files := []\<rparr> else s)"

subsection \<open>\<^verbatim>\<open>handleUpload\<close>\<close>

text \<open>
  What follows \<^verbatim>\<open>await Promise.all(...)\<close> in call \<open>b\<close>: the result is reported and the
  dialog closed when a URL was collected; \<^verbatim>\<open>finally\<close> resets \<^verbatim>\<open>isUploading\<close>.
\<close>

definition after_all :: "nat \<Rightarrow> dropzone \<Rightarrow> dropzone" where
  "after_all b s =
     (let urls = uploadedUrls (batches s ! b) in
      (if urls \<noteq> [] then (call (OnUploadComplete urls) s)\<lparr>dialog_open := False\<rparr> else s)
        \<lparr>isUploading := False\<rparr>)"

definition all_settled :: "batch \<Rightarrow> bool" where
  "all_settled b = list_all (\<lambda>k. phase k = Settled) (tasks b)"

text \<open>The promise of one file is fulfilled; \<^verbatim>\<open>Promise.all\<close> resolves with the last one.\<close>

definition settle :: "task_id \<Rightarrow> dropzone \<Rightarrow> dropzone" where
  "settle t s =
     (let s' = set_phase t Settled s in
      if all_settled (batches s' ! fst t) then after_all (fst t) s' else s')"

text \<open>The \<^verbatim>\<open>try\<close> branch after \<^verbatim>\<open>await uploadFile(file)\<close> returned \<open>url\<close>.\<close>

definition upload_succeeded :: "task_id \<Rightarrow> task \<Rightarrow> string \<Rightarrow> dropzone \<Rightarrow> dropzone" where
  "upload_succeeded t k url s =
     settle t
       (setFiles_map (file_id (task_file k)) (\<lambda>f. f\<lparr>status := Success\<rparr>)
          (push_url t url s))"

text \<open>The \<^verbatim>\<open>catch\<close> branch: \<^verbatim>\<open>uploadFile\<close> rejected.\<close>

definition upload_failed :: "task_id \<Rightarrow> task \<Rightarrow> dropzone \<Rightarrow> dropzone" where
  "upload_failed t k s =
     settle t
       (call (OnError (Some t) (''Failed to upload '' @ file_name (originalFile (task_file k))))
          (setFiles_map (file_id (task_file k))
             (\<lambda>f. f\<lparr>status := Error, errorMessage := Some ''Upload failed''\<rparr>) s))"

definition pendingFiles :: "dropzone \<Rightarrow> file_with_preview list" where
  "pendingFiles s = filter (\<lambda>f. status f = Pending) (files s)"

definition new_batch :: "file_with_preview list \<Rightarrow> batch" where
  "new_batch fs =
     \<lparr>uploadedUrls = [], tasks = map (\<lambda>f. \<lparr>task_file = f, phase = AwaitingUploadURL\<rparr>) fs\<rparr>"

definition handleUpload :: "dropzone \<Rightarrow> dropzone" where
  "handleUpload s =
     (if files s = [] then s
      else
        let s1 = s\<lparr>isUploading := True, batches := batches s @ [new_batch (pendingFiles s)]\<rparr> in
        if pendingFiles s = [] then after_all (length (batches s)) s1 else s1)"

text \<open>The upload button's \<^verbatim>\<open>disabled\<close> attribute.\<close>

definition button_disabled :: "dropzone \<Rightarrow> bool" where
  "button_disabled s = (isUploading s \<or> list_all (\<lambda>f. status f = Success) (files s))"

subsection \<open>\<^verbatim>\<open>onDrop\<close> and \<^verbatim>\<open>removeFile\<close>\<close>

definition onDrop ::
  "(candidate \<times> nat) list \<Rightarrow> (candidate \<times> file_error list) list \<Rightarrow> dropzone \<Rightarrow> dropzone" where
  "onDrop acceptedFiles fileRejections s =
     (let s1 = s\<lparr>calls := calls s @ onDrop_errors acceptedFiles fileRejections\<rparr> in
      if newFiles acceptedFiles \<noteq> [] then s1\<lparr>files := files s1 @ newFiles acceptedFiles\<rparr> else s1)"

text \<open>\<^verbatim>\<open>xhr.abort()\<close>: it ends a request that is being sent and does nothing to any other.\<close>

definition xhr_abort :: "task_id \<Rightarrow> dropzone \<Rightarrow> dropzone" where
  "xhr_abort t s =
     (case get_phase s t of
        Some (Sending uploadURL) \<Rightarrow> set_phase t Aborted s
      | _ \<Rightarrow> s)"

definition removeFile :: "string \<Rightarrow> dropzone \<Rightarrow> dropzone" where
  "removeFile fileId s =
     (let fileToRemove = find (\<lambda>f. file_id f = fileId) (files s);
          s1 = (case fileToRemove of
                  None \<Rightarrow> s
                | Some f \<Rightarrow>
                    (case xhr f of
                       None \<Rightarrow> s
                     | Some t \<Rightarrow> if status f = Uploading then xhr_abort t s else s));
          filtered = filter (\<lambda>f. file_id f \<noteq> fileId) (files s);
          hasUploadingFiles = list_ex (\<lambda>f. status f = Uploading) filtered
      in (if \<not> hasUploadingFiles then s1\<lparr>isUploading := False\<rparr> else s1)\<lparr>files := filtered\<rparr>)"

subsection \<open>\<^verbatim>\<open>uploadFile\<close>\<close>

text \<open>
  \<^verbatim>\<open>(event.loaded / event.total) * 100\<close>; \<open>None\<close> when the total is zero (no finite
  number).
\<close>

definition progress_value :: "nat \<Rightarrow> nat \<Rightarrow> rat option" where
  "progress_value ev_loaded ev_total =
     (if ev_total = 0 then None else Some (of_nat ev_loaded / of_nat ev_total * 100))"

text \<open>The response of the \<^verbatim>\<open>POST\<close> arrived: \<open>ok\<close> is \<^verbatim>\<open>response.ok\<close>.\<close>

definition uploadURL_response :: "task_id \<Rightarrow> bool \<Rightarrow> string \<Rightarrow> dropzone \<Rightarrow> dropzone" where
  "uploadURL_response t ok uploadURL s =
     (case get_task s t of
        None \<Rightarrow> s
      | Some k \<Rightarrow>
          (case phase k of
             AwaitingUploadURL \<Rightarrow>
               if \<not> ok then upload_failed t k s
               else set_phase t (Sending uploadURL)
                      (setFiles_map (file_id (task_file k)) (\<lambda>f. f\<lparr>xhr := Some t\<rparr>) s)
           | _ \<Rightarrow> s))"

text \<open>The \<^verbatim>\<open>POST\<close> failed on the network: \<^verbatim>\<open>fetch\<close> rejects inside \<^verbatim>\<open>uploadFile\<close>.\<close>

definition uploadURL_failure :: "task_id \<Rightarrow> dropzone \<Rightarrow> dropzone" where
  "uploadURL_failure t s =
     (case get_task s t of
        None \<Rightarrow> s
      | Some k \<Rightarrow> (case phase k of AwaitingUploadURL \<Rightarrow> upload_failed t k s | _ \<Rightarrow> s))"

definition xhr_upload_onprogress :: "task_id \<Rightarrow> bool \<Rightarrow> nat \<Rightarrow> nat \<Rightarrow> dropzone \<Rightarrow> dropzone" where
  "xhr_upload_onprogress t lengthComputable ev_loaded ev_total s =
     (case get_task s t of
        None \<Rightarrow> s
      | Some k \<Rightarrow>
          (case phase k of
             Sending uploadURL \<Rightarrow>
               if lengthComputable
               then setFiles_map (file_id (task_file k))
                      (\<lambda>f. f\<lparr>uploadProgress := progress_value ev_loaded ev_total, status := Uploading\<rparr>) s
               else s
           | _ \<Rightarrow> s))"

definition xhr_onload :: "task_id \<Rightarrow> nat \<Rightarrow> dropzone \<Rightarrow> dropzone" where
  "xhr_onload t xhr_status s =
     (case get_task s t of
        None \<Rightarrow> s
      | Some k \<Rightarrow>
          (case phase k of
             Sending uploadURL \<Rightarrow>
               if xhr_status = 200
               then (case object_key uploadURL of
                       None \<Rightarrow> set_phase t Unsettled s
                     | Some key \<Rightarrow> set_phase t (AwaitingViewURL (view_request key)) s)
               else upload_failed t k s
           | _ \<Rightarrow> s))"

definition xhr_onerror :: "task_id \<Rightarrow> dropzone \<Rightarrow> dropzone" where
  "xhr_onerror t s =
     (case get_task s t of
        None \<Rightarrow> s
      | Some k \<Rightarrow> (case phase k of Sending uploadURL \<Rightarrow> upload_failed t k s | _ \<Rightarrow> s))"

text \<open>
  The response of the view-URL request arrived inside \<^verbatim>\<open>onload\<close>: \<open>ok\<close> is
  \<^verbatim>\<open>viewResponse.ok\<close>. A response that is not ok makes the handler throw.
\<close>

definition viewURL_response :: "task_id \<Rightarrow> bool \<Rightarrow> string \<Rightarrow> dropzone \<Rightarrow> dropzone" where
  "viewURL_response t ok url s =
     (case get_task s t of
        None \<Rightarrow> s
      | Some k \<Rightarrow>
          (case phase k of
             AwaitingViewURL request \<Rightarrow>
               if \<not> ok then set_phase t Unsettled s else upload_succeeded t k url s
           | _ \<Rightarrow> s))"

text \<open>The view-URL request failed on the network: \<^verbatim>\<open>fetch\<close> rejects inside \<^verbatim>\<open>onload\<close>.\<close>

definition viewURL_failure :: "task_id \<Rightarrow> dropzone \<Rightarrow> dropzone" where
  "viewURL_failure t s =
     (case get_task s t of
        None \<Rightarrow> s
      | Some k \<Rightarrow> (case phase k of AwaitingViewURL request \<Rightarrow> set_phase t Unsettled s | _ \<Rightarrow> s))"

subsection \<open>Events\<close>

text \<open>
  What happens to the component: the user's actions (the dropzone, the remove buttons and
  the upload button are inside the dialog, so they need it open; a disabled upload button
  does not click) and the network's answers to the transfers. An answer to a transfer
  that is not waiting for it does not occur and changes nothing.
\<close>

datatype event =
    Drop "(candidate \<times> nat) list" "(candidate \<times> file_error list) list"
  | Remove string
  | ClickUpload
  | SetOpen bool
  | UploadURLResponse task_id bool string
  | UploadURLFailure task_id
  | XhrProgress task_id bool nat nat
  | XhrLoad task_id nat
  | XhrError task_id
  | ViewURLResponse task_id bool string
  | ViewURLFailure task_id

fun handle :: "dropzone \<Rightarrow> event \<Rightarrow> dropzone" where
  "handle s (Drop acceptedFiles fileRejections) =
     (if dialog_open s then onDrop acceptedFiles fileRejections s else s)"
| "handle s (Remove fileId) = (if dialog_open s then removeFile fileId s else s)"
| "handle s ClickUpload = (if dialog_open s \<and> \<not> button_disabled s then handleUpload s else s)"
| "handle s (SetOpen b) = s\<lparr>dialog_open := b\<rparr>"
| "handle s (UploadURLResponse t ok uploadURL) = uploadURL_response t ok uploadURL s"
| "handle s (UploadURLFailure t) = uploadURL_failure t s"
| "handle s (XhrProgress t lengthComputable ev_loaded ev_total) =
     xhr_upload_onprogress t lengthComputable ev_loaded ev_total s"
| "handle s (XhrLoad t xhr_status) = xhr_onload t xhr_status s"
| "handle s (XhrError t) = xhr_onerror t s"
| "handle s (ViewURLResponse t ok url) = viewURL_response t ok url s"
| "handle s (ViewURLFailure t) = viewURL_failure t s"

definition step :: "dropzone \<Rightarrow> event \<Rightarrow> dropzone" where
  "step s e = clear_when_closed (handle s e)"

definition run :: "dropzone \<Rightarrow> event list \<Rightarrow> dropzone" where
  "run s es = foldl step s es"

section \<open>The Uppy uploader\<close>

text \<open>
  \<^verbatim>\<open>UploadState\<close>, the object behind \<^verbatim>\<open>state.current\<close>. \<^verbatim>\<open>currentBatchUrls\<close> is a
  \<^verbatim>\<open>Map\<close> from file id to view URL: its entries in insertion order.
\<close>

record upload_state =
  urls :: "string list"
  pending :: "string set"
  state_isUploading :: bool
  currentBatchUrls :: "(string \<times> string) list"

text \<open>The id and the name of an \<^verbatim>\<open>UppyFile\<close>.\<close>

record uppy_file =
  uppy_id :: string
  uppy_name :: string

text \<open>
  The component: \<^verbatim>\<open>state.current\<close>, the dialog's \<^verbatim>\<open>open\<close> cell, the callbacks made so
  far, and the number of \<^verbatim>\<open>setTimeout(checkCompletion, 100)\<close> timers that have not fired.
\<close>

record uppy_uploader =
  current :: upload_state
  uppy_open :: bool
  uppy_calls :: "string callback list"
  timers :: nat

definition INITIAL_STATE :: upload_state where
  "INITIAL_STATE = \<lparr>urls = [], pending = {}, state_isUploading = False, currentBatchUrls = []\<rparr>"

definition uppy_initial :: uppy_uploader where
  "uppy_initial = \<lparr>current = INITIAL_STATE, uppy_open = False, uppy_calls = [], timers = 0\<rparr>"

text \<open>\<^verbatim>\<open>Map.prototype.set\<close>: a known key keeps its place, a new key goes last.\<close>

fun map_set :: "string \<Rightarrow> string \<Rightarrow> (string \<times> string) list \<Rightarrow> (string \<times> string) list" where
  "map_set k v [] = [(k, v)]"
| "map_set k v (p # ps) = (if fst p = k then (k, v) # ps else p # map_set k v ps)"

definition uppy_call :: "string callback \<Rightarrow> uppy_uploader \<Rightarrow> uppy_uploader" where
  "uppy_call c s = s\<lparr>uppy_calls := uppy_calls s @ [c]\<rparr>"

text \<open>The handler of \<^verbatim>\<open>upload\<close>.\<close>

definition on_upload :: "uppy_uploader \<Rightarrow> uppy_uploader" where
  "on_upload s =
     s\<lparr>current := (current s)\<lparr>pending := {}, state_isUploading := True, currentBatchUrls := []\<rparr>\<rparr>"

text \<open>The guard \<^verbatim>\<open>if (!file?.name || !file?.id) return\<close>.\<close>

definition usable :: "uppy_file option \<Rightarrow> bool" where
  "usable file = (case file of None \<Rightarrow> False | Some f \<Rightarrow> uppy_name f \<noteq> [] \<and> uppy_id f \<noteq> [])"

text \<open>The \<^verbatim>\<open>catch\<close> branch of the \<^verbatim>\<open>upload-success\<close> handler.\<close>

definition view_url_failed :: "uppy_file \<Rightarrow> uppy_uploader \<Rightarrow> uppy_uploader" where
  "view_url_failed f s =
     uppy_call
       (OnError (Some (uppy_id f)) (''Upload succeeded but failed to get view URL for '' @ uppy_name f))
       (s\<lparr>current := (current s)\<lparr>pending := pending (current s) - {uppy_id f}\<rparr>\<rparr>)"

text \<open>
  The handler of \<^verbatim>\<open>upload-success\<close> up to its \<^verbatim>\<open>await fetch\<close>: the file id is added to
  \<^verbatim>\<open>pending\<close>; a response without \<^verbatim>\<open>uploadURL\<close> makes \<^verbatim>\<open>split\<close> throw, which is caught.
\<close>

definition on_upload_success :: "uppy_file option \<Rightarrow> string option \<Rightarrow> uppy_uploader \<Rightarrow> uppy_uploader" where
  "on_upload_success file uploadURL s =
     (case file of
        None \<Rightarrow> s
      | Some f \<Rightarrow>
          if \<not> usable file then s
          else
            let s1 = s\<lparr>current := (current s)\<lparr>pending := insert (uppy_id f) (pending (current s))\<rparr>\<rparr> in
            (case uploadURL of
               None \<Rightarrow> view_url_failed f s1
             | Some u \<Rightarrow> (case object_key u of None \<Rightarrow> view_url_failed f s1 | Some key \<Rightarrow> s1)))"

text \<open>The rest of the handler, once the view-URL response is there.\<close>

definition on_view_response :: "uppy_file \<Rightarrow> bool \<Rightarrow> string \<Rightarrow> uppy_uploader \<Rightarrow> uppy_uploader" where
  "on_view_response f ok url s =
     (if \<not> ok then view_url_failed f s
      else s\<lparr>current := (current s)
             \<lparr>urls := urls (current s) @ [url],
              currentBatchUrls := map_set (uppy_id f) url (currentBatchUrls (current s)),
              pending := pending (current s) - {uppy_id f}\<rparr>\<rparr>)"

text \<open>The handler of \<^verbatim>\<open>upload-error\<close>; an empty message prints as \<^verbatim>\<open>Unknown error\<close>.\<close>

definition on_upload_error :: "uppy_file option \<Rightarrow> string \<Rightarrow> uppy_uploader \<Rightarrow> uppy_uploader" where
  "on_upload_error file error_message s =
     (case file of
        None \<Rightarrow> s
      | Some f \<Rightarrow>
          if \<not> usable file then s
          else uppy_call
                 (OnError (Some (uppy_id f))
                    (''Upload failed for '' @ uppy_name f @ '': '' @
                       (if error_message = [] then ''Unknown error'' else error_message)))
                 (s\<lparr>current := (current s)\<lparr>pending := pending (current s) - {uppy_id f}\<rparr>\<rparr>))"

definition checkCompletion :: "uppy_uploader \<Rightarrow> uppy_uploader" where
  "checkCompletion s =
     (if pending (current s) = {}
      then (if currentBatchUrls (current s) \<noteq> []
            then (uppy_call (OnUploadComplete (currentBatchUrls (current s))) s)
                   \<lparr>current := (current s)\<lparr>state_isUploading := False\<rparr>, uppy_open := False\<rparr>
            else s)
      else s\<lparr>timers := timers s + 1\<rparr>)"

text \<open>The handler of \<^verbatim>\<open>complete\<close>, given the names of the failed files.\<close>

definition on_complete :: "string list \<Rightarrow> uppy_uploader \<Rightarrow> uppy_uploader" where
  "on_complete failed s =
     checkCompletion
       (if failed \<noteq> []
        then uppy_call
               (OnError None
                  (string_of_nat (length failed) @ '' file(s) failed to upload: '' @ js_join '', '' failed))
               s
        else s)"

datatype uppy_event =
    Upload
  | UploadSuccess "uppy_file option" "string option"
  | ViewResponse uppy_file bool string
  | ViewFailure uppy_file
  | UploadError "uppy_file option" string
  | Complete "string list"
  | Timeout
  | DoneButton
  | OpenChange bool

fun uppy_step :: "uppy_uploader \<Rightarrow> uppy_event \<Rightarrow> uppy_uploader" where
  "uppy_step s Upload = on_upload s"
| "uppy_step s (UploadSuccess file uploadURL) = on_upload_success file uploadURL s"
| "uppy_step s (ViewResponse f ok url) = on_view_response f ok url s"
| "uppy_step s (ViewFailure f) = view_url_failed f s"
| "uppy_step s (UploadError file error_message) = on_upload_error file error_message s"
| "uppy_step s (Complete failed) = on_complete failed s"
| "uppy_step s Timeout = (if timers s = 0 then s else checkCompletion (s\<lparr>timers := timers s - 1\<rparr>))"
| "uppy_step s DoneButton = s\<lparr>uppy_open := False\<rparr>"
| "uppy_step s (OpenChange b) = s\<lparr>uppy_open := b\<rparr>"

definition uppy_run :: "uppy_uploader \<Rightarrow> uppy_event list \<Rightarrow> uppy_uploader" where
  "uppy_run s es = foldl uppy_step s es"

section \<open>What a step reports\<close>

text \<open>
  What one step of a component may do to its callbacks and its dialog: it makes calls
  to \<^verbatim>\<open>onError\<close> only and leaves the dialog as it is, or it makes calls to \<^verbatim>\<open>onError\<close>
  and then one call to \<^verbatim>\<open>onUploadComplete\<close>, with a list that is not empty and is one
  of the collected lists, and the dialog is closed.
\<close>

definition is_error :: "'t callback \<Rightarrow> bool" where
  "is_error c = (case c of OnError t m \<Rightarrow> True | OnUploadComplete l \<Rightarrow> False)"

definition reported ::
  "'t callback list \<Rightarrow> bool \<Rightarrow> 't callback list \<Rightarrow> bool \<Rightarrow> ('t \<times> string) list set \<Rightarrow> bool" where
  "reported cs was_open cs' is_open collected =
     ((\<exists>errs. cs' = cs @ errs \<and> list_all is_error errs \<and> is_open = was_open) \<or>
      (\<exists>errs l. cs' = cs @ errs @ [OnUploadComplete l] \<and> list_all is_error errs \<and>
         l \<noteq> [] \<and> l \<in> collected \<and> \<not> is_open))"

definition dz_reported :: "dropzone \<Rightarrow> dropzone \<Rightarrow> bool" where
  "dz_reported s s' =
     reported (calls s) (dialog_open s) (calls s') (dialog_open s') (uploadedUrls ` set (batches s'))"

definition uppy_reported :: "uppy_uploader \<Rightarrow> uppy_uploader \<Rightarrow> bool" where
  "uppy_reported s s' =
     reported (uppy_calls s) (uppy_open s) (uppy_calls s') (uppy_open s')
       {currentBatchUrls (current s')}"

section \<open>Transfers and what is said about them\<close>

text \<open>
  A transfer that will never change its phase again: no handler is left that could run
  for it.
\<close>

definition final :: "phase \<Rightarrow> bool" where
  "final p = (p = Aborted \<or> p = Unsettled \<or> p = Settled)"

text \<open>A call mentions a transfer when it reports a URL or a failure of that transfer.\<close>

definition mentions :: "'t \<Rightarrow> 't callback \<Rightarrow> bool" where
  "mentions t c =
     (case c of OnUploadComplete l \<Rightarrow> t \<in> fst ` set l | OnError tag m \<Rightarrow> tag = Some t)"

text \<open>Every URL pushed to the \<^verbatim>\<open>uploadedUrls\<close> of some \<^verbatim>\<open>handleUpload\<close> call, with its transfer.\<close>

definition pushed :: "dropzone \<Rightarrow> (task_id \<times> string) set" where
  "pushed s = set (concat (map uploadedUrls (batches s)))"

definition settled_urls :: "dropzone \<Rightarrow> bool" where
  "settled_urls s = (\<forall>x \<in> pushed s. get_phase s (fst x) = Some Settled)"

text \<open>From \<open>s\<close> to \<open>s'\<close> only calls were added, and none of them mentions transfer \<open>t\<close>.\<close>

definition silent :: "task_id \<Rightarrow> dropzone \<Rightarrow> dropzone \<Rightarrow> bool" where
  "silent t s s' = (\<exists>new. calls s' = calls s @ new \<and> (\<forall>c \<in> set new. \<not> mentions t c))"

text \<open>
  The URLs collected by a \<^verbatim>\<open>handleUpload\<close> call are those of its own transfers: every
  entry of the \<open>b\<close>-th list carries a transfer of batch \<open>b\<close>.
\<close>

definition local_urls :: "dropzone \<Rightarrow> bool" where
  "local_urls s =
     (\<forall>b \<in> {..<length (batches s)}. \<forall>x \<in> set (uploadedUrls (batches s ! b)). fst (fst x) = b)"

section \<open>An example batch\<close>

text \<open>
  An image and a video, the write URLs the backend answers with, and the start of a
  batch: the dialog is opened, both files are dropped in the same millisecond, the
  upload button is clicked and both write URLs arrive, so that both requests are being
  sent. The image is transfer \<open>(0, 0)\<close>, the video transfer \<open>(0, 1)\<close>.
\<close>

definition photo :: candidate where
  "photo = \<lparr>file_name = ''a.png'', file_type = ''image/png'', file_size = 1024\<rparr>"

definition clip :: candidate where
  "clip = \<lparr>file_name = ''b.mp4'', file_type = ''video/mp4'', file_size = 2048\<rparr>"

definition photo_url :: string where
  "photo_url = ''https://bucket.s3.amazonaws.com/uploads/1001-a.png?sig''"

definition clip_url :: string where
  "clip_url = ''https://bucket.s3.amazonaws.com/uploads/1002-b.mp4?sig''"

definition two_sending :: "event list" where
  "two_sending =
     [SetOpen True, Drop [(photo, 1000), (clip, 1000)] [], ClickUpload,
      UploadURLResponse (0, 0) True photo_url, UploadURLResponse (0, 1) True clip_url]"

text \<open>
  Four continuations of it. The video is sent in full and its view-URL request is
  answered with a response that is not ok, or fails on the network; the same with the
  image uploaded and its view URL received before; and the video cancelled while both
  files are being sent, the image succeeding afterwards.
\<close>

definition video_view_refused :: "event list" where
  "video_view_refused =
     two_sending @
     [XhrProgress (0, 1) True 2048 2048, XhrLoad (0, 1) 200, ViewURLResponse (0, 1) False '''']"

definition video_view_unreachable :: "event list" where
  "video_view_unreachable =
     two_sending @
     [XhrProgress (0, 1) True 2048 2048, XhrLoad (0, 1) 200, ViewURLFailure (0, 1)]"

definition image_done_video_refused :: "event list" where
  "image_done_video_refused =
     two_sending @
     [XhrProgress (0, 0) True 1024 1024, XhrProgress (0, 1) True 2048 2048,
      XhrLoad (0, 0) 200, XhrLoad (0, 1) 200,
      ViewURLResponse (0, 0) True ''https://view/a.png'', ViewURLResponse (0, 1) False '''']"

definition image_done_video_cancelled :: "event list" where
  "image_done_video_cancelled =
     two_sending @
     [XhrProgress (0, 0) True 512 1024, XhrProgress (0, 1) True 1024 2048,
      Remove ''b.mp4-1000'',
      XhrLoad (0, 0) 200, ViewURLResponse (0, 0) True ''https://view/a.png'']"

text \<open>
  Two batches of the Uppy uploader. The image of the first is uploaded and the batch
  completes while the image's view-URL request is out; the second batch, a video, is
  started, the timer of the first batch fires, the image's view URL arrives, and the
  video's upload fails.
\<close>

definition uppy_photo :: uppy_file where
  "uppy_photo = \<lparr>uppy_id = ''uppy-a'', uppy_name = ''a.png''\<rparr>"

definition uppy_clip :: uppy_file where
  "uppy_clip = \<lparr>uppy_id = ''uppy-b'', uppy_name = ''b.mp4''\<rparr>"

definition stale_view_url :: "uppy_event list" where
  "stale_view_url =
     [OpenChange True, Upload, UploadSuccess (Some uppy_photo) (Some photo_url), Complete [],
      Upload, Timeout, ViewResponse uppy_photo True ''https://view/a.png'',
      UploadError (Some uppy_clip) ''Forbidden'']"

section \<open>Facts about the strings\<close>

lemma js_split_from_not_empty: "js_split_from sep cur s \<noteq> []"
  by (induction sep cur s rule: js_split_from.induct) auto

lemmas string_eval = string_of_nat.simps digit_char_def js_split_def js_index_def
  toLowerCase_def lower_char_def extension_def

lemmas validation_eval = MAX_IMAGE_SIZE_def MAX_VIDEO_SIZE_def isImage_def maxSize_def
  maxSizeInMB_def validator_def rejection_message_def accepted_error_def fileWithPreview_def
  newFiles_def onDrop_errors_def getFileIcon_def

lemmas machine_eval = initial_def get_task_def get_phase_def set_phase_def setFiles_map_def
  call_def push_url_def clear_when_closed_def after_all_def all_settled_def settle_def
  upload_succeeded_def upload_failed_def pendingFiles_def new_batch_def handleUpload_def
  button_disabled_def onDrop_def xhr_abort_def removeFile_def progress_value_def
  uploadURL_response_def uploadURL_failure_def xhr_upload_onprogress_def xhr_onload_def
  xhr_onerror_def viewURL_response_def viewURL_failure_def step_def run_def
  object_key_def view_request_def Let_def

lemmas uppy_eval = INITIAL_STATE_def uppy_initial_def uppy_call_def on_upload_def usable_def
  view_url_failed_def on_upload_success_def on_view_response_def on_upload_error_def
  checkCompletion_def on_complete_def uppy_run_def object_key_def Let_def
  uppy_photo_def uppy_clip_def stale_view_url_def photo_url_def

lemmas url_eval = unreserved_def hex_digit_def percent_escape_def extendedEncodeURIComponent_def
  hex_value_def form_decode_def url_query_def form_pair_def searchParams_def searchParams_get_def
  object_key_def view_request_def storage_key_def encode_key_def getSignedUrl_def
  POST_uploadURL_def GET_url_def

lemma js_split_from_no_sep:
  "\<not> sublist sep s \<Longrightarrow> js_split_from sep cur s = [cur @ s]"
proof (induction s arbitrary: cur)
  case Nil
  then show ?case by simp
next
  case (Cons c cs)
  from Cons.prems have "\<not> prefix sep (c # cs)" "\<not> sublist sep cs"
    by (auto simp: sublist_Cons_right)
  with Cons.IH [of "cur @ [c]"] show ?case by simp
qed

lemma prefix_of_longer_left:
  "prefix xs (ys @ zs) \<Longrightarrow> length xs \<le> length ys \<Longrightarrow> prefix xs ys"
  by (auto simp: prefix_append)

lemma js_split_from_first:
  assumes "sep \<noteq> []" and "\<not> sublist sep (a @ butlast sep)"
  shows "js_split_from sep cur (a @ sep @ b) = (cur @ a) # js_split_from sep [] b"
  using assms(2)
proof (induction a arbitrary: cur)
  case Nil
  from assms(1) obtain c cs where sep: "sep = c # cs" by (cases sep) auto
  have "js_split_from sep cur (sep @ b) = cur # js_split_from sep [] (drop (length sep) (sep @ b))"
    by (subst sep, subst append_Cons, subst js_split_from.simps) (simp add: sep)
  then show ?case by simp
next
  case (Cons x a)
  have "\<not> prefix sep ((x # a) @ sep @ b)"
  proof
    assume p: "prefix sep ((x # a) @ sep @ b)"
    have eq: "(x # a) @ sep @ b = ((x # a) @ butlast sep) @ ([last sep] @ b)"
      using append_butlast_last_id [OF assms(1)] by (metis append.assoc)
    have "prefix sep (((x # a) @ butlast sep) @ ([last sep] @ b))"
      using p unfolding eq .
    moreover have "length sep \<le> length ((x # a) @ butlast sep)"
      by simp
    ultimately have "prefix sep ((x # a) @ butlast sep)"
      by (rule prefix_of_longer_left)
    with Cons.prems show False by auto
  qed
  moreover from Cons.prems have "\<not> sublist sep (a @ butlast sep)"
    by (auto simp: sublist_Cons_right)
  ultimately show ?case
    using Cons.IH [of "cur @ [x]"] by simp
qed

lemma sublist_single: "sublist [c] s \<longleftrightarrow> c \<in> set s"
  by (induction s) (auto simp: sublist_Cons_right)

lemma sublist_skip:
  "c \<notin> set a \<Longrightarrow> sublist (c # xs) (a @ b) \<Longrightarrow> sublist (c # xs) b"
  by (induction a) (auto simp: sublist_Cons_right)

lemma object_key_of_path:
  assumes "CHR ''?'' \<notin> set pre" and "CHR ''?'' \<notin> set rest"
    and "\<not> sublist ''/uploads/'' (pre @ ''/uploads'')"
    and "\<not> sublist ''/uploads/'' rest"
  shows "object_key (pre @ ''/uploads/'' @ rest @ ''?'' @ query) = Some (''uploads/'' @ rest)"
proof -
  let ?path = "pre @ ''/uploads/'' @ rest"
  have "\<not> sublist ''?'' (?path @ butlast ''?'')"
    using assms(1,2) by (simp add: sublist_single)
  then have "js_split_from ''?'' [] (?path @ ''?'' @ query) = ([] @ ?path) # js_split_from ''?'' [] query"
    by (intro js_split_from_first) simp_all
  then have first: "js_index (js_split ''?'' (pre @ ''/uploads/'' @ rest @ ''?'' @ query)) 0 = Some ?path"
    by (simp add: js_split_def js_index_def)
  have "js_split_from ''/uploads/'' [] (pre @ ''/uploads/'' @ rest) = ([] @ pre) # js_split_from ''/uploads/'' [] rest"
    using assms(3) by (intro js_split_from_first) simp_all
  also have "js_split_from ''/uploads/'' [] rest = [[] @ rest]"
    using assms(4) by (rule js_split_from_no_sep)
  finally have second: "js_index (js_split ''/uploads/'' ?path) 1 = Some rest"
    by (simp add: js_split_def js_index_def)
  show ?thesis
    by (simp only: object_key_def first second option.case)
qed

lemma digit_char_digit: "d < 10 \<Longrightarrow> digit_char d \<in> set ''0123456789''"
  unfolding digit_char_def by (rule nth_mem) simp

lemma string_of_nat_digits: "set (string_of_nat n) \<subseteq> set ''0123456789''"
proof (induction n rule: string_of_nat.induct)
  case (1 n)
  show ?case
  proof (cases "n < 10")
    case True
    then show ?thesis
      using digit_char_digit [of n] by (subst string_of_nat.simps) simp
  next
    case False
    have "n mod 10 < 10" by simp
    then have "digit_char (n mod 10) \<in> set ''0123456789''" by (rule digit_char_digit)
    with False "1.IH" show ?thesis
      by (subst string_of_nat.simps) simp
  qed
qed

lemma js_join_Cons: "ys \<noteq> [] \<Longrightarrow> js_join sep (x # ys) = x @ sep @ js_join sep ys"
  by (cases ys) simp_all

lemma encode_segments:
  "js_join ''/'' (map extendedEncodeURIComponent (js_split_from ''/'' cur s)) =
     extendedEncodeURIComponent cur @ concat (map key_char s)"
proof (induction s arbitrary: cur)
  case Nil
  then show ?case by simp
next
  case (Cons c cs)
  show ?case
  proof (cases "c = CHR ''/''")
    case True
    have "js_split_from ''/'' cur (c # cs) = cur # js_split_from ''/'' [] cs"
      using True by simp
    moreover have "map extendedEncodeURIComponent (js_split_from ''/'' [] cs) \<noteq> []"
      by (simp add: js_split_from_not_empty)
    ultimately show ?thesis
      using Cons.IH [of "[]"] True
      by (simp add: js_join_Cons key_char_def extendedEncodeURIComponent_def)
  next
    case False
    then have "js_split_from ''/'' cur (c # cs) = js_split_from ''/'' (cur @ [c]) cs"
      by simp
    then show ?thesis
      using Cons.IH [of "cur @ [c]"] False
      by (simp add: key_char_def extendedEncodeURIComponent_def)
  qed
qed

lemma encode_key_chars: "encode_key key = concat (map key_char key)"
  using encode_segments [of "[]" key]
  by (simp add: encode_key_def js_split_def extendedEncodeURIComponent_def)

lemma hex_digit_cases:
  assumes "n < 16"
  shows "hex_value (hex_digit n) = Some n \<and> unreserved (hex_digit n) \<and>
         hex_digit n \<in> set ''0123456789ABCDEF''"
proof -
  have "list_all (\<lambda>n. hex_value (hex_digit n) = Some n \<and> unreserved (hex_digit n) \<and>
          hex_digit n \<in> set ''0123456789ABCDEF'') [0..<16]"
    by (simp add: upt_rec hex_digit_def hex_value_def unreserved_def)
  then have "\<forall>n \<in> set [0..<16]. hex_value (hex_digit n) = Some n \<and> unreserved (hex_digit n) \<and>
          hex_digit n \<in> set ''0123456789ABCDEF''"
    by (simp only: list_all_iff)
  moreover have "n \<in> set [0..<16]"
    using assms by simp
  ultimately show ?thesis
    by blast
qed

lemma of_char_split: "16 * ((of_char c :: nat) div 16) + (of_char c :: nat) mod 16 = of_char c"
  by simp

lemma of_char_div_16: "(of_char c :: nat) div 16 < 16"
proof -
  have "(of_char c :: nat) < 256" by simp
  then show ?thesis by presburger
qed

lemma percent_decode_escape:
  "percent_decode (percent_escape c @ s) = c # percent_decode s"
proof -
  have a: "hex_value (hex_digit ((of_char c :: nat) div 16)) = Some ((of_char c :: nat) div 16)"
    using hex_digit_cases [OF of_char_div_16] by simp
  have "(of_char c :: nat) mod 16 < 16" by simp
  then have b: "hex_value (hex_digit ((of_char c :: nat) mod 16)) = Some ((of_char c :: nat) mod 16)"
    using hex_digit_cases by simp
  show ?thesis
    by (simp add: percent_escape_def a b)
qed

lemma percent_decode_plain:
  "c \<noteq> CHR ''%'' \<Longrightarrow> percent_decode (c # s) = c # percent_decode s"
  by (cases "(c # s)" rule: percent_decode.cases) auto

lemma unreserved_not_special:
  "unreserved c \<Longrightarrow> c \<noteq> CHR ''%'' \<and> c \<noteq> CHR ''+'' \<and> c \<noteq> CHR ''?'' \<and> c \<noteq> CHR ''#'' \<and>
     c \<noteq> CHR ''&'' \<and> c \<noteq> CHR ''='' \<and> c \<noteq> CHR ''/''"
  by (auto simp: unreserved_def)

lemma key_char_set:
  "x \<in> set (key_char c) \<Longrightarrow> x = CHR ''/'' \<or> x = CHR ''%'' \<or> unreserved x"
proof -
  assume x: "x \<in> set (key_char c)"
  have "(of_char c :: nat) mod 16 < 16" by simp
  then have "unreserved (hex_digit ((of_char c :: nat) mod 16))"
    using hex_digit_cases by simp
  moreover have "unreserved (hex_digit ((of_char c :: nat) div 16))"
    using hex_digit_cases [OF of_char_div_16] by simp
  ultimately show ?thesis
    using x by (auto simp: key_char_def percent_escape_def split: if_splits)
qed

lemma encoded_chars:
  "x \<in> set (concat (map key_char s)) \<Longrightarrow> x = CHR ''/'' \<or> x = CHR ''%'' \<or> unreserved x"
  using key_char_set by auto

lemma encoded_no_special:
  "CHR ''?'' \<notin> set (concat (map key_char s))"
  "CHR ''#'' \<notin> set (concat (map key_char s))"
  "CHR ''&'' \<notin> set (concat (map key_char s))"
  "CHR ''='' \<notin> set (concat (map key_char s))"
  "CHR ''+'' \<notin> set (concat (map key_char s))"
  using encoded_chars [of _ s] unreserved_not_special by blast+

lemma percent_decode_encoded:
  "percent_decode (concat (map key_char s)) = s"
proof (induction s)
  case Nil
  then show ?case by simp
next
  case (Cons c s)
  show ?case
  proof (cases "c = CHR ''/'' \<or> unreserved c")
    case True
    then have "c \<noteq> CHR ''%''"
      using unreserved_not_special by auto
    with True Cons.IH show ?thesis
      by (simp add: key_char_def percent_decode_plain)
  next
    case False
    with Cons.IH show ?thesis
      by (simp add: key_char_def percent_decode_escape)
  qed
qed

lemma form_decode_encoded: "form_decode (concat (map key_char s)) = s"
proof -
  have "map (\<lambda>c. if c = CHR ''+'' then CHR '' '' else c) (concat (map key_char s)) =
        concat (map key_char s)"
    using encoded_no_special(5) [of s] by (intro map_idI) auto
  then show ?thesis
    by (simp add: form_decode_def percent_decode_encoded)
qed

lemma key_plain_not_percent: "key_plain p \<Longrightarrow> p \<noteq> CHR ''%''"
  by (auto simp: key_plain_def unreserved_def)

lemma key_plain_not_hex: "key_plain p \<Longrightarrow> n < 16 \<Longrightarrow> p \<noteq> hex_digit n"
proof
  assume p: "key_plain p" and n: "n < 16" and eq: "p = hex_digit n"
  from n have h: "hex_digit n \<in> set ''0123456789ABCDEF''"
    using hex_digit_cases by blast
  have "hex_digit n \<noteq> CHR ''/''"
    using hex_digit_cases [OF n] unreserved_not_special by blast
  moreover from p have "p = CHR ''/'' \<or> p \<notin> set ''0123456789ABCDEF''"
    by (simp only: key_plain_def) (rule disjE, assumption, erule disjI1, erule conjE, erule disjI2)
  ultimately show False
    using h eq by metis
qed

lemma key_char_head:
  assumes "key_plain p" and "prefix [p] (key_char c @ r)"
  shows "key_char c = [c] \<and> p = c"
proof (cases "c = CHR ''/'' \<or> unreserved c")
  case True
  then have "key_char c = [c]" by (auto simp: key_char_def)
  with assms(2) show ?thesis by simp
next
  case False
  then have "key_char c = percent_escape c" by (simp add: key_char_def)
  with assms(2) have "p = CHR ''%''"
    by (simp add: percent_escape_def)
  with key_plain_not_percent [OF assms(1)] show ?thesis by simp
qed

lemma prefix_encoded:
  "list_all key_plain P \<Longrightarrow> prefix P (concat (map key_char s)) \<Longrightarrow> prefix P s"
proof (induction P arbitrary: s)
  case Nil
  then show ?case by simp
next
  case (Cons p P)
  from Cons.prems(2) obtain c s' where s: "s = c # s'"
    by (cases s) auto
  from Cons.prems(1) have p: "key_plain p" and P: "list_all key_plain P"
    by simp_all
  have "prefix [p] (key_char c @ concat (map key_char s'))"
    using Cons.prems(2) unfolding s by (auto simp: prefix_def)
  with p have k: "key_char c = [c]" "p = c"
    using key_char_head by blast+
  with Cons.prems(2) have "prefix P (concat (map key_char s'))"
    unfolding s by simp
  with P have "prefix P s'"
    by (rule Cons.IH)
  with k(2) show ?case
    unfolding s by simp
qed

lemma sublist_encoded:
  assumes "key_plain p" and "list_all key_plain P"
  shows "sublist (p # P) (concat (map key_char s)) \<Longrightarrow> sublist (p # P) s"
proof (induction s)
  case Nil
  then show ?case by simp
next
  case (Cons c s)
  have all: "list_all key_plain (p # P)"
    using assms by simp
  show ?case
  proof (cases "prefix (p # P) (concat (map key_char (c # s)))")
    case True
    with all have "prefix (p # P) (c # s)"
      by (rule prefix_encoded)
    then show ?thesis by (rule prefix_imp_sublist)
  next
    case False
    have "sublist (p # P) (concat (map key_char s))"
    proof (cases "c = CHR ''/'' \<or> unreserved c")
      case True
      then have "key_char c = [c]" by (auto simp: key_char_def)
      with Cons.prems False show ?thesis
        by (auto simp: sublist_Cons_right)
    next
      case plain: False
      let ?h1 = "hex_digit ((of_char c :: nat) div 16)"
      let ?h2 = "hex_digit ((of_char c :: nat) mod 16)"
      let ?r = "concat (map key_char s)"
      have "(of_char c :: nat) mod 16 < 16" by simp
      then have h2: "p \<noteq> ?h2"
        using key_plain_not_hex [OF assms(1)] by blast
      have h1: "p \<noteq> ?h1"
        using key_plain_not_hex [OF assms(1) of_char_div_16] by blast
      have k: "concat (map key_char (c # s)) = CHR ''%'' # ?h1 # ?h2 # ?r"
        using plain by (simp add: key_char_def percent_escape_def)
      from Cons.prems False have "sublist (p # P) (?h1 # ?h2 # ?r)"
        unfolding k by (simp only: sublist_Cons_right) blast
      moreover have "\<not> prefix (p # P) (?h1 # ?h2 # ?r)"
        using h1 by simp
      ultimately have "sublist (p # P) (?h2 # ?r)"
        by (simp only: sublist_Cons_right) blast
      moreover have "\<not> prefix (p # P) (?h2 # ?r)"
        using h2 by simp
      ultimately show ?thesis
        by (simp only: sublist_Cons_right) blast
    qed
    then have "sublist (p # P) s" by (rule Cons.IH)
    then show ?thesis by (simp add: sublist_Cons_right)
  qed
qed

lemma uploads_sublist_encoded:
  "sublist ''/uploads/'' (concat (map key_char s)) \<Longrightarrow> sublist ''/uploads/'' s"
  by (rule sublist_encoded) (simp_all add: key_plain_def unreserved_def)

lemma searchParams_get_key:
  assumes "CHR ''#'' \<notin> set v" and "CHR ''&'' \<notin> set v"
  shows "searchParams_get ''key'' (view_request v) = Some (form_decode v)"
proof -
  have t: "takeWhile (\<lambda>c. c \<noteq> CHR ''#'') (''/api/upload?key='' @ v) = ''/api/upload?key='' @ v"
    using assms(1) by (auto simp: takeWhile_eq_all_conv)
  have q: "url_query (view_request v) = ''key='' @ v"
    unfolding url_query_def view_request_def t by simp
  have "\<not> sublist ''&'' (''key='' @ v)"
    using assms(2) by (simp add: sublist_single)
  then have "js_split ''&'' (''key='' @ v) = [''key='' @ v]"
    unfolding js_split_def using js_split_from_no_sep [of "''&''" "''key='' @ v" "[]"] by simp
  then have "searchParams (view_request v) = [form_pair (''key='' @ v)]"
    by (simp add: searchParams_def q)
  moreover have "form_pair (''key='' @ v) = (''key'', form_decode v)"
    by (simp add: form_pair_def form_decode_def)
  ultimately show ?thesis
    by (simp add: searchParams_get_def)
qed

section \<open>The key of the view-URL request\<close>

text \<open>
  Claim C9, as amended. Let the write URL be built over the storage key
  \<^verbatim>\<open>uploads/<timestamp>-<filename>\<close> for a file name that does not contain \<^verbatim>\<open>/uploads/\<close>,
  behind a storage endpoint that has no question mark and in which \<^verbatim>\<open>/uploads/\<close> first
  occurs where the key starts (the endpoint has no \<^verbatim>\<open>/uploads/\<close> and does not end in
  \<^verbatim>\<open>/uploads\<close>). Then the key the client derives from the write URL and writes into the
  view-URL request is the encoded storage key, the key the backend reads from that
  request is the storage key it used for the write URL, and the view URL it answers
  with is the signed URL of that key: it refers to the stored object.
\<close>

theorem view_key_decodes_to_storage_key:
  assumes "CHR ''?'' \<notin> set endpoint"
    and "\<not> sublist ''/uploads/'' (endpoint @ ''/uploads'')"
    and "\<not> sublist ''/uploads/'' filename"
  shows "object_key (POST_uploadURL endpoint signature now filename) =
           Some (encode_key (storage_key now filename)) \<and>
         searchParams_get ''key'' (view_request (encode_key (storage_key now filename))) =
           Some (storage_key now filename) \<and>
         GET_url endpoint signature' (view_request (encode_key (storage_key now filename))) =
           Some (getSignedUrl endpoint (storage_key now filename) signature')"
proof -
  let ?rest = "string_of_nat now @ ''-'' @ filename"
  let ?enc = "concat (map key_char ?rest)"
  have digits: "CHR ''/'' \<notin> set (string_of_nat now)"
    using string_of_nat_digits [of now] by auto
  have r: "\<not> sublist ''/uploads/'' ?rest"
  proof
    assume "sublist ''/uploads/'' ?rest"
    then have "sublist ''/uploads/'' ((string_of_nat now @ ''-'') @ filename)" by simp
    moreover have "CHR ''/'' \<notin> set (string_of_nat now @ ''-'')"
      using digits by simp
    ultimately have "sublist ''/uploads/'' filename"
      using sublist_skip [of "CHR ''/''" "string_of_nat now @ ''-''" "''uploads/''" filename] by simp
    with assms(3) show False by simp
  qed
  have e: "\<not> sublist ''/uploads/'' ?enc"
    using r uploads_sublist_encoded by blast
  have enc: "encode_key (storage_key now filename) = ''uploads/'' @ ?enc"
    by (simp add: encode_key_chars storage_key_def key_char_def unreserved_def)
  have url: "POST_uploadURL endpoint signature now filename =
      endpoint @ ''/uploads/'' @ ?enc @ ''?'' @ signature"
    by (simp add: POST_uploadURL_def getSignedUrl_def enc)
  have key: "object_key (POST_uploadURL endpoint signature now filename) =
      Some (encode_key (storage_key now filename))"
    unfolding url enc
    by (rule object_key_of_path [OF assms(1) encoded_no_special(1) assms(2) e])
  have sent: "searchParams_get ''key'' (view_request (encode_key (storage_key now filename))) =
      Some (storage_key now filename)"
    unfolding encode_key_chars
    using searchParams_get_key [OF encoded_no_special(2) encoded_no_special(3),
        of "storage_key now filename"]
    by (simp only: form_decode_encoded)
  have "storage_key now filename \<noteq> []"
    by (simp add: storage_key_def)
  with sent have "GET_url endpoint signature' (view_request (encode_key (storage_key now filename))) =
      Some (getSignedUrl endpoint (storage_key now filename) signature')"
    by (simp add: GET_url_def)
  with key sent show ?thesis by blast
qed

theorem view_key_decodes_to_storage_key_witness:
  "CHR ''?'' \<notin> set ''https://bucket.s3.eu-west-1.amazonaws.com'' \<and>
   \<not> sublist ''/uploads/'' (''https://bucket.s3.eu-west-1.amazonaws.com'' @ ''/uploads'') \<and>
   \<not> sublist ''/uploads/'' ''my photo.png'' \<and>
   POST_uploadURL ''https://bucket.s3.eu-west-1.amazonaws.com'' ''X-Amz-Signature=abc''
      1700000000000 ''my photo.png'' =
     ''https://bucket.s3.eu-west-1.amazonaws.com/uploads/1700000000000-my%20photo.png?X-Amz-Signature=abc'' \<and>
   object_key (POST_uploadURL ''https://bucket.s3.eu-west-1.amazonaws.com'' ''X-Amz-Signature=abc''
      1700000000000 ''my photo.png'') = Some ''uploads/1700000000000-my%20photo.png'' \<and>
   searchParams_get ''key'' (view_request ''uploads/1700000000000-my%20photo.png'') =
     Some ''uploads/1700000000000-my photo.png'' \<and>
   GET_url ''https://bucket.s3.eu-west-1.amazonaws.com'' ''X-Amz-Signature=def''
     (view_request ''uploads/1700000000000-my%20photo.png'') =
     Some (getSignedUrl ''https://bucket.s3.eu-west-1.amazonaws.com''
       ''uploads/1700000000000-my photo.png'' ''X-Amz-Signature=def'')"
proof -
  have h1: "CHR ''?'' \<notin> set ''https://bucket.s3.eu-west-1.amazonaws.com''" by simp
  have h2: "\<not> sublist ''/uploads/'' (''https://bucket.s3.eu-west-1.amazonaws.com'' @ ''/uploads'')"
    by (simp add: sublist_Cons_right)
  have h3: "\<not> sublist ''/uploads/'' ''my photo.png''"
    by (simp add: sublist_Cons_right)
  have sk: "storage_key 1700000000000 ''my photo.png'' = ''uploads/1700000000000-my photo.png''"
    by (simp add: url_eval string_eval)
  have enc: "encode_key ''uploads/1700000000000-my photo.png'' =
      ''uploads/1700000000000-my%20photo.png''"
    by (simp add: url_eval string_eval)
  have url: "POST_uploadURL ''https://bucket.s3.eu-west-1.amazonaws.com'' ''X-Amz-Signature=abc''
      1700000000000 ''my photo.png'' =
     ''https://bucket.s3.eu-west-1.amazonaws.com/uploads/1700000000000-my%20photo.png?X-Amz-Signature=abc''"
    by (simp add: POST_uploadURL_def getSignedUrl_def sk enc)
  note t = view_key_decodes_to_storage_key [OF h1 h2 h3,
      of "''X-Amz-Signature=abc''" 1700000000000 "''X-Amz-Signature=def''", unfolded sk enc]
  show ?thesis
    using h1 h2 h3 url t by blast
qed

text \<open>
  The claim as it was stated fails for a file name that holds \<^verbatim>\<open>/uploads/\<close>: the key the
  client writes into the request is cut at the second \<^verbatim>\<open>/uploads/\<close>, the backend reads
  that shorter key, and the view URL it answers with is not the signed URL of the
  stored object.
\<close>

theorem view_key_counterexample:
  "storage_key 1700000000000 ''a/uploads/b.png'' = ''uploads/1700000000000-a/uploads/b.png'' \<and>
   object_key (POST_uploadURL ''https://bucket.s3.eu-west-1.amazonaws.com'' ''X-Amz-Signature=abc''
      1700000000000 ''a/uploads/b.png'') = Some ''uploads/1700000000000-a'' \<and>
   searchParams_get ''key'' (view_request ''uploads/1700000000000-a'') =
     Some ''uploads/1700000000000-a'' \<and>
   GET_url ''https://bucket.s3.eu-west-1.amazonaws.com'' ''X-Amz-Signature=def''
     (view_request ''uploads/1700000000000-a'') =
     Some ''https://bucket.s3.eu-west-1.amazonaws.com/uploads/1700000000000-a?X-Amz-Signature=def'' \<and>
   getSignedUrl ''https://bucket.s3.eu-west-1.amazonaws.com''
     (storage_key 1700000000000 ''a/uploads/b.png'') ''X-Amz-Signature=def'' =
     ''https://bucket.s3.eu-west-1.amazonaws.com/uploads/1700000000000-a/uploads/b.png?X-Amz-Signature=def''"
  by (simp add: url_eval string_eval)

section \<open>Identifiers of dropped files\<close>

text \<open>
  Claim C8. The identifiers of the files in the list are meant to be pairwise distinct.
  Two files of one drop that have the same name and are processed in the same
  millisecond get the same identifier.
\<close>

theorem same_name_same_id:
  "map file_id (files (run initial
     [SetOpen True,
      Drop [(\<lparr>file_name = ''a.png'', file_type = ''image/png'', file_size = 1024\<rparr>, 1700000000000),
            (\<lparr>file_name = ''a.png'', file_type = ''image/png'', file_size = 2048\<rparr>, 1700000000000)]
           []]))
   = [''a.png-1700000000000'', ''a.png-1700000000000''] \<and>
   \<not> distinct (map file_id (files (run initial
     [SetOpen True,
      Drop [(\<lparr>file_name = ''a.png'', file_type = ''image/png'', file_size = 1024\<rparr>, 1700000000000),
            (\<lparr>file_name = ''a.png'', file_type = ''image/png'', file_size = 2048\<rparr>, 1700000000000)]
           []])))"
  by (simp add: machine_eval validation_eval string_eval)

section \<open>The size limit of a file whose MIME type is not recognised\<close>

text \<open>
  Claim C6. A file over the limit of its media class is to be rejected with that class's
  limit, the class being read from the file name's extension when the MIME type is
  empty or not recognised. A JPEG of 6 MB that comes with the MIME type
  \<^verbatim>\<open>application/octet-stream\<close> (the \<^verbatim>\<open>accept\<close> list admits it by its extension
  \<^verbatim>\<open>.jpg\<close>) is shown with the image icon, yet the validator raises no error for it and
  \<^verbatim>\<open>onDrop\<close> takes it into the list as a pending file: its size is compared with the
  video limit. At 60 MB it is rejected, and both messages name the video limit of 50 MB.
  The same 6 MB with the MIME type \<^verbatim>\<open>image/jpeg\<close> are rejected with the image limit.
\<close>

theorem mistyped_image_gets_video_limit:
  "validator \<lparr>file_name = ''photo.jpg'', file_type = ''application/octet-stream'',
      file_size = 6 * 1024 * 1024\<rparr> = None \<and>
   onDrop_errors
     [(\<lparr>file_name = ''photo.jpg'', file_type = ''application/octet-stream'',
         file_size = 6 * 1024 * 1024\<rparr>, 1700000000000)] [] = [] \<and>
   map status (newFiles
     [(\<lparr>file_name = ''photo.jpg'', file_type = ''application/octet-stream'',
         file_size = 6 * 1024 * 1024\<rparr>, 1700000000000)]) = [Pending] \<and>
   map getFileIcon (newFiles
     [(\<lparr>file_name = ''photo.jpg'', file_type = ''application/octet-stream'',
         file_size = 6 * 1024 * 1024\<rparr>, 1700000000000)]) = [ImageIcon] \<and>
   validator \<lparr>file_name = ''photo.jpg'', file_type = ''application/octet-stream'',
      file_size = 60 * 1024 * 1024\<rparr> =
     Some \<lparr>err_code = ''file-too-large'', err_message = ''File is larger than 50 MB''\<rparr> \<and>
   onDrop_errors []
     [(\<lparr>file_name = ''photo.jpg'', file_type = ''application/octet-stream'',
         file_size = 60 * 1024 * 1024\<rparr>,
       [\<lparr>err_code = ''file-too-large'', err_message = ''File is larger than 50 MB''\<rparr>])] =
     [OnError None ''photo.jpg is too large. Maximum size is 50MB''] \<and>
   validator \<lparr>file_name = ''photo.jpg'', file_type = ''image/jpeg'',
      file_size = 6 * 1024 * 1024\<rparr> =
     Some \<lparr>err_code = ''file-too-large'', err_message = ''File is larger than 5 MB''\<rparr>"
  by (simp add: validation_eval string_eval)

section \<open>Completion reports need a URL\<close>

lemma calls_set_phase [simp]: "calls (set_phase t p s) = calls s"
  and open_set_phase [simp]: "dialog_open (set_phase t p s) = dialog_open s"
  and length_batches_set_phase [simp]: "length (batches (set_phase t p s)) = length (batches s)"
  and calls_setFiles_map [simp]: "calls (setFiles_map i g s) = calls s"
  and open_setFiles_map [simp]: "dialog_open (setFiles_map i g s) = dialog_open s"
  and batches_setFiles_map [simp]: "batches (setFiles_map i g s) = batches s"
  and calls_push_url [simp]: "calls (push_url t u s) = calls s"
  and open_push_url [simp]: "dialog_open (push_url t u s) = dialog_open s"
  and length_batches_push_url [simp]: "length (batches (push_url t u s)) = length (batches s)"
  and calls_call [simp]: "calls (call c s) = calls s @ [c]"
  and open_call [simp]: "dialog_open (call c s) = dialog_open s"
  and batches_call [simp]: "batches (call c s) = batches s"
  by (simp_all add: set_phase_def setFiles_map_def push_url_def call_def)

lemma get_task_in_range: "get_task s t = Some k \<Longrightarrow> fst t < length (batches s)"
  by (auto simp: get_task_def js_index_def split: if_splits)

lemma dz_reported_same:
  "calls s' = calls s \<Longrightarrow> dialog_open s' = dialog_open s \<Longrightarrow> dz_reported s s'"
  by (simp add: dz_reported_def reported_def)

lemma dz_reported_after_errors:
  assumes "calls s1 = calls s @ errs" and "list_all is_error errs"
    and "dialog_open s1 = dialog_open s" and "dz_reported s1 s2"
  shows "dz_reported s s2"
  using assms(4) unfolding dz_reported_def reported_def assms(1) assms(3)
proof (elim disjE exE conjE)
  fix errs'
  assume "calls s2 = (calls s @ errs) @ errs'" "list_all is_error errs'"
    "dialog_open s2 = dialog_open s"
  with assms(2) have "calls s2 = calls s @ (errs @ errs') \<and> list_all is_error (errs @ errs') \<and>
    dialog_open s2 = dialog_open s" by simp
  then show "(\<exists>errs. calls s2 = calls s @ errs \<and> list_all is_error errs \<and> dialog_open s2 = dialog_open s) \<or>
    (\<exists>errs l. calls s2 = calls s @ errs @ [OnUploadComplete l] \<and> list_all is_error errs \<and>
       l \<noteq> [] \<and> l \<in> uploadedUrls ` set (batches s2) \<and> \<not> dialog_open s2)"
    by blast
next
  fix errs' l
  assume "calls s2 = (calls s @ errs) @ errs' @ [OnUploadComplete l]" "list_all is_error errs'"
    "l \<noteq> []" "l \<in> uploadedUrls ` set (batches s2)" "\<not> dialog_open s2"
  with assms(2) have "calls s2 = calls s @ (errs @ errs') @ [OnUploadComplete l] \<and>
    list_all is_error (errs @ errs') \<and> l \<noteq> [] \<and> l \<in> uploadedUrls ` set (batches s2) \<and> \<not> dialog_open s2"
    by simp
  then show "(\<exists>errs. calls s2 = calls s @ errs \<and> list_all is_error errs \<and> dialog_open s2 = dialog_open s) \<or>
    (\<exists>errs l. calls s2 = calls s @ errs @ [OnUploadComplete l] \<and> list_all is_error errs \<and>
       l \<noteq> [] \<and> l \<in> uploadedUrls ` set (batches s2) \<and> \<not> dialog_open s2)"
    by blast
qed

lemma dz_reported_after_all:
  assumes "b < length (batches s)"
  shows "dz_reported s (after_all b s)"
proof (cases "uploadedUrls (batches s ! b) = []")
  case True
  then show ?thesis
    by (simp add: dz_reported_def reported_def after_all_def)
next
  case False
  let ?l = "uploadedUrls (batches s ! b)"
  have "calls (after_all b s) = calls s @ [] @ [OnUploadComplete ?l]"
    and "\<not> dialog_open (after_all b s)"
    and "batches (after_all b s) = batches s"
    using False by (simp_all add: after_all_def call_def Let_def)
  moreover have "?l \<in> uploadedUrls ` set (batches s)"
    using assms by simp
  ultimately show ?thesis
    unfolding dz_reported_def reported_def using False
    by (intro disjI2 exI [of _ "[]"] exI [of _ ?l]) simp
qed

lemma dz_reported_settle:
  assumes "fst t < length (batches s)"
  shows "dz_reported s (settle t s)"
proof -
  let ?s = "set_phase t Settled s"
  have same: "calls ?s = calls s @ []" "list_all is_error []" "dialog_open ?s = dialog_open s"
    by simp_all
  have "dz_reported ?s (after_all (fst t) ?s)"
    using assms by (intro dz_reported_after_all) simp
  moreover have "dz_reported ?s ?s"
    by (rule dz_reported_same) simp_all
  ultimately have "dz_reported ?s (settle t s)"
    by (simp add: settle_def Let_def)
  with same show ?thesis
    by (rule dz_reported_after_errors)
qed

lemma dz_reported_upload_failed:
  assumes "get_task s t = Some k"
  shows "dz_reported s (upload_failed t k s)"
proof -
  let ?c = "OnError (Some t) (''Failed to upload '' @ file_name (originalFile (task_file k)))"
  let ?s = "call ?c (setFiles_map (file_id (task_file k))
             (\<lambda>f. f\<lparr>status := Error, errorMessage := Some ''Upload failed''\<rparr>) s)"
  have "calls ?s = calls s @ [?c]" "list_all is_error [?c]" "dialog_open ?s = dialog_open s"
    by (simp_all add: is_error_def)
  moreover have "dz_reported ?s (settle t ?s)"
    using get_task_in_range [OF assms] by (intro dz_reported_settle) simp
  ultimately have "dz_reported s (settle t ?s)"
    by (rule dz_reported_after_errors)
  then show ?thesis
    by (simp add: upload_failed_def)
qed

lemma dz_reported_upload_succeeded:
  assumes "get_task s t = Some k"
  shows "dz_reported s (upload_succeeded t k url s)"
proof -
  let ?s = "setFiles_map (file_id (task_file k)) (\<lambda>f. f\<lparr>status := Success\<rparr>) (push_url t url s)"
  have "calls ?s = calls s @ []" "list_all is_error []" "dialog_open ?s = dialog_open s"
    by simp_all
  moreover have "dz_reported ?s (settle t ?s)"
    using get_task_in_range [OF assms] by (intro dz_reported_settle) simp
  ultimately have "dz_reported s (settle t ?s)"
    by (rule dz_reported_after_errors)
  then show ?thesis
    by (simp add: upload_succeeded_def)
qed

lemma dz_reported_handleUpload: "dz_reported s (handleUpload s)"
proof (cases "files s \<noteq> [] \<and> pendingFiles s = []")
  case True
  let ?s = "s\<lparr>isUploading := True, batches := batches s @ [new_batch (pendingFiles s)]\<rparr>"
  have "uploadedUrls (batches ?s ! length (batches s)) = []"
    by (simp add: new_batch_def)
  then have "calls (after_all (length (batches s)) ?s) = calls s"
    "dialog_open (after_all (length (batches s)) ?s) = dialog_open s"
    by (simp_all add: after_all_def)
  then have "dz_reported s (after_all (length (batches s)) ?s)"
    by (rule dz_reported_same)
  with True show ?thesis
    by (simp add: handleUpload_def Let_def)
next
  case False
  then have "calls (handleUpload s) = calls s" "dialog_open (handleUpload s) = dialog_open s"
    by (auto simp: handleUpload_def Let_def)
  then show ?thesis by (rule dz_reported_same)
qed

lemma list_all_is_error_onDrop: "list_all is_error (onDrop_errors a r)"
  by (auto simp: onDrop_errors_def list_all_iff is_error_def)

lemma dz_reported_onDrop: "dz_reported s (onDrop a r s)"
  unfolding dz_reported_def reported_def
  by (rule disjI1, rule exI [of _ "onDrop_errors a r"])
     (simp add: onDrop_def Let_def list_all_is_error_onDrop)

lemma calls_xhr_abort [simp]: "calls (xhr_abort t s) = calls s"
  and open_xhr_abort [simp]: "dialog_open (xhr_abort t s) = dialog_open s"
  by (simp_all add: xhr_abort_def split: option.splits phase.splits)

lemma dz_reported_removeFile: "dz_reported s (removeFile i s)"
  by (rule dz_reported_same)
     (simp_all add: removeFile_def Let_def split: option.splits)

lemma dz_reported_clear: "dz_reported s s' \<Longrightarrow> dz_reported s (clear_when_closed s')"
  by (auto simp: dz_reported_def clear_when_closed_def)

lemma dz_reported_handle:
  assumes "\<forall>b. e \<noteq> SetOpen b"
  shows "dz_reported s (handle s e)"
proof (cases e)
  case (Drop a r)
  then show ?thesis by (simp add: dz_reported_onDrop dz_reported_same)
next
  case (Remove i)
  then show ?thesis by (simp add: dz_reported_removeFile dz_reported_same)
next
  case ClickUpload
  then show ?thesis by (simp add: dz_reported_handleUpload dz_reported_same)
next
  case (SetOpen b)
  with assms show ?thesis by blast
next
  case (UploadURLResponse t ok u)
  then show ?thesis
    by (auto simp: uploadURL_response_def dz_reported_same dz_reported_upload_failed
        split: option.splits phase.splits)
next
  case (UploadURLFailure t)
  then show ?thesis
    by (auto simp: uploadURL_failure_def dz_reported_same dz_reported_upload_failed
        split: option.splits phase.splits)
next
  case (XhrProgress t c l tot)
  then show ?thesis
    by (auto simp: xhr_upload_onprogress_def dz_reported_same split: option.splits phase.splits)
next
  case (XhrLoad t st)
  then show ?thesis
    by (auto simp: xhr_onload_def dz_reported_same dz_reported_upload_failed
        split: option.splits phase.splits)
next
  case (XhrError t)
  then show ?thesis
    by (auto simp: xhr_onerror_def dz_reported_same dz_reported_upload_failed
        split: option.splits phase.splits)
next
  case (ViewURLResponse t ok u)
  then show ?thesis
    by (auto simp: viewURL_response_def dz_reported_same dz_reported_upload_succeeded
        split: option.splits phase.splits)
next
  case (ViewURLFailure t)
  then show ?thesis
    by (auto simp: viewURL_failure_def dz_reported_same split: option.splits phase.splits)
qed

lemma dz_reported_step: "\<forall>b. e \<noteq> SetOpen b \<Longrightarrow> dz_reported s (step s e)"
  unfolding step_def by (intro dz_reported_clear dz_reported_handle)

lemma reported_errors:
  "list_all is_error errs \<Longrightarrow> reported cs op (cs @ errs) op collected"
  unfolding reported_def by blast

lemma reported_complete:
  "l \<noteq> [] \<Longrightarrow> l \<in> collected \<Longrightarrow> reported cs op (cs @ [OnUploadComplete l]) False collected"
  unfolding reported_def
  by (intro disjI2 exI [of _ "[]"] exI [of _ l]) simp

lemma reported_after_errors:
  assumes "list_all is_error errs" and "reported (cs @ errs) op cs' op' collected"
  shows "reported cs op cs' op' collected"
  using assms(2) unfolding reported_def
proof (elim disjE exE conjE)
  fix errs'
  assume "cs' = (cs @ errs) @ errs'" "list_all is_error errs'" "op' = op"
  with assms(1) have "cs' = cs @ (errs @ errs') \<and> list_all is_error (errs @ errs') \<and> op' = op"
    by simp
  then show "(\<exists>errs. cs' = cs @ errs \<and> list_all is_error errs \<and> op' = op) \<or>
    (\<exists>errs l. cs' = cs @ errs @ [OnUploadComplete l] \<and> list_all is_error errs \<and>
       l \<noteq> [] \<and> l \<in> collected \<and> \<not> op')"
    by blast
next
  fix errs' l
  assume "cs' = (cs @ errs) @ errs' @ [OnUploadComplete l]" "list_all is_error errs'"
    "l \<noteq> []" "l \<in> collected" "\<not> op'"
  with assms(1) have "cs' = cs @ (errs @ errs') @ [OnUploadComplete l] \<and>
    list_all is_error (errs @ errs') \<and> l \<noteq> [] \<and> l \<in> collected \<and> \<not> op'"
    by simp
  then show "(\<exists>errs. cs' = cs @ errs \<and> list_all is_error errs \<and> op' = op) \<or>
    (\<exists>errs l. cs' = cs @ errs @ [OnUploadComplete l] \<and> list_all is_error errs \<and>
       l \<noteq> [] \<and> l \<in> collected \<and> \<not> op')"
    by blast
qed

lemma uppy_reported_same:
  "uppy_calls s' = uppy_calls s \<Longrightarrow> uppy_open s' = uppy_open s \<Longrightarrow> uppy_reported s s'"
  unfolding uppy_reported_def using reported_errors [of "[]"] by simp

lemma uppy_reported_error:
  "uppy_calls s' = uppy_calls s @ [OnError t m] \<Longrightarrow> uppy_open s' = uppy_open s \<Longrightarrow>
   uppy_reported s s'"
  unfolding uppy_reported_def using reported_errors [of "[OnError t m]"]
  by (simp add: is_error_def)

lemma uppy_reported_view_url_failed: "uppy_reported s (view_url_failed f s)"
  by (rule uppy_reported_error) (simp_all add: view_url_failed_def uppy_call_def)

lemma uppy_reported_checkCompletion: "uppy_reported s (checkCompletion s)"
proof (cases "pending (current s) = {} \<and> currentBatchUrls (current s) \<noteq> []")
  case True
  then have "uppy_calls (checkCompletion s) = uppy_calls s @ [OnUploadComplete (currentBatchUrls (current s))]"
    and "uppy_open (checkCompletion s) = False"
    and "currentBatchUrls (current (checkCompletion s)) = currentBatchUrls (current s)"
    by (simp_all add: checkCompletion_def uppy_call_def)
  with True show ?thesis
    unfolding uppy_reported_def by (simp add: reported_complete)
next
  case False
  then have "uppy_calls (checkCompletion s) = uppy_calls s"
    "uppy_open (checkCompletion s) = uppy_open s"
    by (auto simp: checkCompletion_def)
  then show ?thesis by (rule uppy_reported_same)
qed

lemma uppy_reported_on_complete: "uppy_reported s (on_complete failed s)"
proof (cases "failed = []")
  case True
  then show ?thesis by (simp add: on_complete_def uppy_reported_checkCompletion)
next
  case False
  let ?c = "OnError None
      (string_of_nat (length failed) @ '' file(s) failed to upload: '' @ js_join '', '' failed)"
  have "uppy_reported (uppy_call ?c s) (checkCompletion (uppy_call ?c s))"
    by (rule uppy_reported_checkCompletion)
  then have "reported (uppy_calls s @ [?c]) (uppy_open s)
      (uppy_calls (on_complete failed s)) (uppy_open (on_complete failed s))
      {currentBatchUrls (current (on_complete failed s))}"
    using False by (simp add: uppy_reported_def on_complete_def uppy_call_def)
  moreover have "list_all is_error [?c]"
    by (simp add: is_error_def)
  ultimately show ?thesis
    unfolding uppy_reported_def by (rule reported_after_errors [rotated])
qed

lemma uppy_reported_step:
  assumes "u \<noteq> DoneButton" and "\<forall>b. u \<noteq> OpenChange b"
  shows "uppy_reported s (uppy_step s u)"
proof (cases u)
  case Upload
  then show ?thesis by (simp add: uppy_reported_same on_upload_def)
next
  case (UploadSuccess fl uploadURL)
  then show ?thesis
    by (auto simp: on_upload_success_def Let_def uppy_reported_same view_url_failed_def uppy_call_def
        intro!: uppy_reported_error split: option.splits)
next
  case (ViewResponse f ok url)
  then show ?thesis
    by (simp add: on_view_response_def uppy_reported_same uppy_reported_view_url_failed)
next
  case (ViewFailure f)
  then show ?thesis by (simp add: uppy_reported_view_url_failed)
next
  case (UploadError fl m)
  then show ?thesis
    by (auto simp: on_upload_error_def uppy_reported_same uppy_call_def
        intro!: uppy_reported_error split: option.splits)
next
  case (Complete failed)
  then show ?thesis by (simp add: uppy_reported_on_complete)
next
  case Timeout
  have "uppy_reported (s\<lparr>timers := timers s - 1\<rparr>) (checkCompletion (s\<lparr>timers := timers s - 1\<rparr>))"
    by (rule uppy_reported_checkCompletion)
  then have "uppy_reported s (checkCompletion (s\<lparr>timers := timers s - 1\<rparr>))"
    by (simp add: uppy_reported_def)
  with Timeout show ?thesis by (simp add: uppy_reported_same)
next
  case DoneButton
  with assms show ?thesis by simp
next
  case (OpenChange b)
  with assms show ?thesis by blast
qed

text \<open>
  Every step of either component, other than the user opening or closing the dialog,
  makes calls to \<^verbatim>\<open>onError\<close> only and leaves the dialog as it is, or ends with one call
  to \<^verbatim>\<open>onUploadComplete\<close> whose list is not empty and is the list collected by a
  \<^verbatim>\<open>handleUpload\<close> call (the list in \<^verbatim>\<open>currentBatchUrls\<close>, for the Uppy uploader), and
  closes the dialog. So the completion callback is never called with an empty list, and
  the dialog is closed by the component only together with a result.
\<close>

theorem reports_need_a_url:
  assumes "\<forall>b. e \<noteq> SetOpen b" and "u \<noteq> DoneButton" and "\<forall>b. u \<noteq> OpenChange b"
  shows "reported (calls s) (dialog_open s) (calls (step s e)) (dialog_open (step s e))
           (uploadedUrls ` set (batches (step s e))) \<and>
         reported (uppy_calls v) (uppy_open v) (uppy_calls (uppy_step v u)) (uppy_open (uppy_step v u))
           {currentBatchUrls (current (uppy_step v u))}"
  using dz_reported_step [OF assms(1)] uppy_reported_step [OF assms(2,3)]
  by (simp add: dz_reported_def uppy_reported_def)

theorem reports_need_a_url_example:
  "(\<forall>b. ViewURLResponse (0, 0) True ''https://view/a.png'' \<noteq> SetOpen b) \<and>
   Complete [] \<noteq> DoneButton \<and>
   (\<forall>b. Complete [] \<noteq> OpenChange b) \<and>
   reported
     (calls (run initial
        [SetOpen True,
         Drop [(\<lparr>file_name = ''a.png'', file_type = ''image/png'', file_size = 1024\<rparr>, 1000)] [],
         ClickUpload,
         UploadURLResponse (0, 0) True ''https://bucket.s3.amazonaws.com/uploads/1001-a.png?sig'',
         XhrLoad (0, 0) 200]))
     True
     [OnUploadComplete [((0, 0), ''https://view/a.png'')]]
     False
     {[((0, 0), ''https://view/a.png'')]} \<and>
   reported
     (uppy_calls (uppy_run uppy_initial
        [OpenChange True, Upload,
         UploadSuccess (Some \<lparr>uppy_id = ''uppy-a'', uppy_name = ''a.png''\<rparr>)
           (Some ''https://bucket.s3.amazonaws.com/uploads/1001-a.png''),
         ViewResponse \<lparr>uppy_id = ''uppy-a'', uppy_name = ''a.png''\<rparr> True ''https://view/a.png'']))
     True
     [OnUploadComplete [(''uppy-a'', ''https://view/a.png'')]]
     False
     {[(''uppy-a'', ''https://view/a.png'')]}"
proof -
  have h1: "\<forall>b. ViewURLResponse (0, 0) True ''https://view/a.png'' \<noteq> SetOpen b" by simp
  have h2: "Complete [] \<noteq> DoneButton" by simp
  have h3: "\<forall>b. Complete [] \<noteq> OpenChange b" by simp
  show ?thesis
    using h1 h2 h3
      reports_need_a_url [OF h1 h2 h3,
        of "run initial
        [SetOpen True,
         Drop [(\<lparr>file_name = ''a.png'', file_type = ''image/png'', file_size = 1024\<rparr>, 1000)] [],
         ClickUpload,
         UploadURLResponse (0, 0) True ''https://bucket.s3.amazonaws.com/uploads/1001-a.png?sig'',
         XhrLoad (0, 0) 200]"
          "uppy_run uppy_initial
        [OpenChange True, Upload,
         UploadSuccess (Some \<lparr>uppy_id = ''uppy-a'', uppy_name = ''a.png''\<rparr>)
           (Some ''https://bucket.s3.amazonaws.com/uploads/1001-a.png''),
         ViewResponse \<lparr>uppy_id = ''uppy-a'', uppy_name = ''a.png''\<rparr> True ''https://view/a.png'']"]
    by (simp add: machine_eval validation_eval string_eval uppy_eval)
qed

subsection \<open>A result for a batch without a URL\<close>

text \<open>
  Claim C10. A batch all of whose files end without a view URL is meant to report no
  result and to leave the dialog open. In the Uppy uploader the view URL of an earlier
  batch can arrive after the next batch was started. The image of the first batch is
  uploaded and the batch completes while the image's view-URL request is out; the user
  starts a second batch with a video. The \<^verbatim>\<open>upload\<close> handler empties \<^verbatim>\<open>pending\<close> and
  \<^verbatim>\<open>currentBatchUrls\<close>, so the timer of the first batch finds nothing pending and no URL
  and stops. Then the image's view URL arrives and is put into the map of the second
  batch, and the video fails: the dialog is still open and only the failure was
  reported. At \<^verbatim>\<open>complete\<close> the second batch, whose only file failed, calls
  \<^verbatim>\<open>onUploadComplete\<close> with the image's URL and closes the dialog. The dropzone uploader,
  whose URLs are collected in a list of the \<^verbatim>\<open>handleUpload\<close> call, reports the failure
  only and leaves the dialog open when the only file of a batch fails.
\<close>

theorem stale_view_url_completes_next_batch:
  "uppy_calls (uppy_run uppy_initial stale_view_url) =
     [OnError (Some ''uppy-b'') ''Upload failed for b.mp4: Forbidden''] \<and>
   uppy_open (uppy_run uppy_initial stale_view_url) \<and>
   pending (current (uppy_run uppy_initial stale_view_url)) = {} \<and>
   currentBatchUrls (current (uppy_run uppy_initial stale_view_url)) =
     [(''uppy-a'', ''https://view/a.png'')] \<and>
   uppy_calls (uppy_run uppy_initial (stale_view_url @ [Complete [''b.mp4'']])) =
     [OnError (Some ''uppy-b'') ''Upload failed for b.mp4: Forbidden'',
      OnError None ''1 file(s) failed to upload: b.mp4'',
      OnUploadComplete [(''uppy-a'', ''https://view/a.png'')]] \<and>
   \<not> uppy_open (uppy_run uppy_initial (stale_view_url @ [Complete [''b.mp4'']])) \<and>
   calls (run initial
     [SetOpen True, Drop [(clip, 1000)] [], ClickUpload, UploadURLResponse (0, 0) False '''']) =
     [OnError (Some (0, 0)) ''Failed to upload b.mp4''] \<and>
   dialog_open (run initial
     [SetOpen True, Drop [(clip, 1000)] [], ClickUpload, UploadURLResponse (0, 0) False ''''])"
  by (simp add: machine_eval validation_eval string_eval clip_def uppy_eval)

section \<open>Starting a batch, and progress\<close>

lemma nth_update_tasks:
  "j < length bs \<Longrightarrow>
   tasks (bs[i := (bs ! i)\<lparr>tasks := ts\<rparr>] ! j) = (if i = j then ts else tasks (bs ! j))"
  by (cases "i = j") auto

lemma get_task_handleUpload:
  assumes "get_task s t = Some k"
  shows "get_task (handleUpload s) t = Some k"
proof -
  from assms have "fst t < length (batches s)"
    by (rule get_task_in_range)
  then have "get_task (s\<lparr>isUploading := True, batches := batches s @ bs\<rparr>) t = get_task s t" for bs
    by (simp add: get_task_def js_index_def nth_append)
  moreover have "get_task (after_all b s') t = get_task s' t" for b s'
    by (simp add: get_task_def after_all_def call_def Let_def)
  ultimately show ?thesis
    using assms by (simp add: handleUpload_def Let_def)
qed

lemma files_after_all [simp]: "files (after_all b s) = files s"
  and batches_after_all [simp]: "batches (after_all b s) = batches s"
  by (simp_all add: after_all_def call_def Let_def)




lemma get_task_onprogress [simp]:
  "get_task (xhr_upload_onprogress t c l tot s) t' = get_task s t'"
  by (simp add: xhr_upload_onprogress_def get_task_def setFiles_map_def
      split: option.splits phase.splits)





section \<open>Phases that do not change\<close>

lemma get_task_set_phase:
  "get_task (set_phase t p s) t' =
     (if t' = t then map_option (\<lambda>k. k\<lparr>phase := p\<rparr>) (get_task s t) else get_task s t')"
proof (cases "fst t' < length (batches s)")
  case False
  then show ?thesis
    by (auto simp: get_task_def set_phase_def js_index_def)
next
  case True
  show ?thesis
  proof (cases "fst t' = fst t")
    case False
    with True show ?thesis
      by (auto simp: get_task_def set_phase_def js_index_def nth_update_tasks)
  next
    case same: True
    show ?thesis
    proof (cases "snd t' = snd t")
      case True
      with same have "t' = t" by (simp add: prod_eq_iff)
      with \<open>fst t' < length (batches s)\<close> show ?thesis
        by (simp add: get_task_def set_phase_def js_index_def nth_update_tasks)
    next
      case False
      then have "t' \<noteq> t" by auto
      with False same \<open>fst t' < length (batches s)\<close> show ?thesis
        by (simp add: get_task_def set_phase_def js_index_def nth_update_tasks)
    qed
  qed
qed

lemma get_phase_set_phase:
  "get_phase (set_phase t p s) t' =
     (if t' = t \<and> get_phase s t \<noteq> None then Some p else get_phase s t')"
  by (auto simp: get_phase_def get_task_set_phase)

lemma tasks_nth_update_urls:
  "j < length bs \<Longrightarrow> tasks (bs[i := (bs ! i)\<lparr>uploadedUrls := u\<rparr>] ! j) = tasks (bs ! j)"
  by (cases "i = j") auto

lemma get_task_setFiles_map [simp]: "get_task (setFiles_map i g s) t = get_task s t"
  by (simp add: get_task_def setFiles_map_def)

lemma get_task_call [simp]: "get_task (call c s) t = get_task s t"
  by (simp add: get_task_def call_def)

lemma get_task_push_url [simp]: "get_task (push_url t u s) t' = get_task s t'"
  by (simp add: get_task_def push_url_def js_index_def tasks_nth_update_urls)

lemma get_task_after_all [simp]: "get_task (after_all b s) t = get_task s t"
  by (simp add: get_task_def after_all_def call_def Let_def)

lemma get_task_clear [simp]: "get_task (clear_when_closed s) t = get_task s t"
  by (simp add: get_task_def clear_when_closed_def)

lemma get_phase_frame [simp]:
  "get_phase (setFiles_map i g s) t = get_phase s t"
  "get_phase (call c s) t = get_phase s t"
  "get_phase (push_url t' u s) t = get_phase s t"
  "get_phase (after_all b s) t = get_phase s t"
  "get_phase (clear_when_closed s) t = get_phase s t"
  by (simp_all add: get_phase_def)

lemma get_phase_settle:
  "get_phase (settle t s) t' =
     (if t' = t \<and> get_phase s t \<noteq> None then Some Settled else get_phase s t')"
  by (simp add: settle_def Let_def get_phase_set_phase)

lemma get_phase_upload_failed:
  "get_phase (upload_failed t k s) t' =
     (if t' = t \<and> get_phase s t \<noteq> None then Some Settled else get_phase s t')"
  by (simp add: upload_failed_def get_phase_settle)

lemma get_phase_upload_succeeded:
  "get_phase (upload_succeeded t k u s) t' =
     (if t' = t \<and> get_phase s t \<noteq> None then Some Settled else get_phase s t')"
  by (simp add: upload_succeeded_def get_phase_settle)

lemma get_phase_handleUpload:
  "get_phase s t = Some p \<Longrightarrow> get_phase (handleUpload s) t = Some p"
  by (auto simp: get_phase_def get_task_handleUpload)

lemma get_phase_onDrop [simp]: "get_phase (onDrop a r s) t = get_phase s t"
  by (simp add: get_phase_def get_task_def onDrop_def Let_def)

lemma get_phase_xhr_abort:
  "get_phase (xhr_abort t s) t' =
     (if t' = t \<and> (\<exists>u. get_phase s t = Some (Sending u)) then Some Aborted else get_phase s t')"
  by (auto simp: xhr_abort_def get_phase_set_phase split: option.splits phase.splits)

lemma get_phase_frame2 [simp]:
  "get_phase (s\<lparr>isUploading := b\<rparr>) t = get_phase s t"
  "get_phase (s\<lparr>files := fs\<rparr>) t = get_phase s t"
  "get_phase (s\<lparr>dialog_open := b\<rparr>) t = get_phase s t"
  by (simp_all add: get_phase_def get_task_def)

lemma get_phase_removeFile:
  "get_phase (removeFile i s) t = get_phase s t \<or>
   ((\<exists>u. get_phase s t = Some (Sending u)) \<and> get_phase (removeFile i s) t = Some Aborted)"
  by (auto simp: removeFile_def Let_def get_phase_xhr_abort split: option.splits)

lemma get_phase_of_task: "get_task s t = Some k \<Longrightarrow> get_phase s t = Some (phase k)"
  by (simp add: get_phase_def)

lemma final_phase_handle:
  assumes "get_phase s t = Some p" and "final p"
  shows "get_phase (handle s e) t = Some p"
proof (cases e)
  case (Drop a r)
  with assms show ?thesis by simp
next
  case (Remove i)
  with assms get_phase_removeFile [of i s t] show ?thesis
    by (auto simp: final_def)
next
  case ClickUpload
  with assms show ?thesis by (simp add: get_phase_handleUpload)
next
  case (SetOpen b)
  with assms show ?thesis by simp
next
  case (UploadURLResponse t' ok u)
  with assms show ?thesis
    by (auto simp: uploadURL_response_def get_phase_upload_failed get_phase_set_phase final_def
        dest!: get_phase_of_task split: option.splits phase.splits)
next
  case (UploadURLFailure t')
  with assms show ?thesis
    by (auto simp: uploadURL_failure_def get_phase_upload_failed final_def
        dest!: get_phase_of_task split: option.splits phase.splits)
next
  case (XhrProgress t' c l tot)
  with assms show ?thesis
    by (simp add: get_phase_def)
next
  case (XhrLoad t' st)
  with assms show ?thesis
    by (auto simp: xhr_onload_def get_phase_upload_failed get_phase_set_phase final_def
        dest!: get_phase_of_task split: option.splits phase.splits)
next
  case (XhrError t')
  with assms show ?thesis
    by (auto simp: xhr_onerror_def get_phase_upload_failed final_def
        dest!: get_phase_of_task split: option.splits phase.splits)
next
  case (ViewURLResponse t' ok u)
  with assms show ?thesis
    by (auto simp: viewURL_response_def get_phase_upload_succeeded get_phase_set_phase final_def
        dest!: get_phase_of_task split: option.splits phase.splits)
next
  case (ViewURLFailure t')
  with assms show ?thesis
    by (auto simp: viewURL_failure_def get_phase_set_phase final_def
        dest!: get_phase_of_task split: option.splits phase.splits)
qed

lemma final_phase_step:
  "get_phase s t = Some p \<Longrightarrow> final p \<Longrightarrow> get_phase (step s e) t = Some p"
  by (simp add: step_def final_phase_handle)

lemma final_phase_run:
  "get_phase s t = Some p \<Longrightarrow> final p \<Longrightarrow> get_phase (run s es) t = Some p"
  unfolding run_def
  by (induction es arbitrary: s) (simp_all add: final_phase_step)

section \<open>Collected URLs\<close>

lemma map_urls_update_tasks:
  "map uploadedUrls (bs[i := (bs ! i)\<lparr>tasks := ts\<rparr>]) = map uploadedUrls bs"
proof (cases "i < length bs")
  case True
  then show ?thesis by (simp add: map_update list_update_same_conv)
next
  case False
  then show ?thesis by (simp add: list_update_beyond)
qed

lemma collected_set_phase [simp]: "pushed (set_phase t p s) = pushed s"
  by (simp add: pushed_def set_phase_def map_urls_update_tasks)

lemma set_concat_update_snoc:
  "set (concat (xs[i := xs ! i @ [y]])) =
     (if i < length xs then insert y (set (concat xs)) else set (concat xs))"
proof (induction xs arbitrary: i)
  case Nil
  then show ?case by simp
next
  case (Cons x xs)
  then show ?case by (cases i) auto
qed

lemma collected_push_url:
  "pushed (push_url t u s) =
     (if fst t < length (batches s) then insert (t, u) (pushed s) else pushed s)"
proof -
  have "map uploadedUrls (batches (push_url t u s)) =
        (map uploadedUrls (batches s))[fst t := map uploadedUrls (batches s) ! fst t @ [(t, u)]]"
  proof (cases "fst t < length (batches s)")
    case True
    then show ?thesis by (simp add: push_url_def map_update)
  next
    case False
    then show ?thesis by (simp add: push_url_def list_update_beyond)
  qed
  then have "pushed (push_url t u s) =
      set (concat ((map uploadedUrls (batches s))
        [fst t := map uploadedUrls (batches s) ! fst t @ [(t, u)]]))"
    by (simp only: pushed_def)
  also have "\<dots> = (if fst t < length (map uploadedUrls (batches s))
      then insert (t, u) (set (concat (map uploadedUrls (batches s))))
      else set (concat (map uploadedUrls (batches s))))"
    by (rule set_concat_update_snoc)
  finally show ?thesis
    by (simp only: pushed_def length_map)
qed

lemma collected_frame [simp]:
  "pushed (setFiles_map i g s) = pushed s"
  "pushed (call c s) = pushed s"
  "pushed (after_all b s) = pushed s"
  "pushed (clear_when_closed s) = pushed s"
  "pushed (s\<lparr>isUploading := x\<rparr>) = pushed s"
  "pushed (s\<lparr>files := fs\<rparr>) = pushed s"
  "pushed (s\<lparr>dialog_open := x\<rparr>) = pushed s"
  by (simp_all add: pushed_def clear_when_closed_def)

lemma collected_settle [simp]: "pushed (settle t s) = pushed s"
  by (simp add: settle_def Let_def)

lemma collected_upload_failed [simp]: "pushed (upload_failed t k s) = pushed s"
  by (simp add: upload_failed_def)

lemma collected_upload_succeeded:
  "get_task s t = Some k \<Longrightarrow> pushed (upload_succeeded t k u s) = insert (t, u) (pushed s)"
  by (simp add: upload_succeeded_def collected_push_url get_task_in_range)

lemma collected_handleUpload [simp]: "pushed (handleUpload s) = pushed s"
  by (simp add: handleUpload_def Let_def pushed_def new_batch_def)

lemma collected_onDrop [simp]: "pushed (onDrop a r s) = pushed s"
  by (simp add: onDrop_def Let_def pushed_def)

lemma collected_xhr_abort [simp]: "pushed (xhr_abort t s) = pushed s"
  by (simp add: xhr_abort_def split: option.splits phase.splits)

lemma collected_removeFile [simp]: "pushed (removeFile i s) = pushed s"
  by (simp add: removeFile_def Let_def split: option.splits)

text \<open>A URL is collected only for a transfer that awaited its view URL and is settled by it.\<close>

lemma collected_handle:
  assumes "x \<in> pushed (handle s e)"
  shows "x \<in> pushed s \<or>
         ((\<exists>r. get_phase s (fst x) = Some (AwaitingViewURL r)) \<and>
          get_phase (handle s e) (fst x) = Some Settled)"
proof (cases e)
  case (ViewURLResponse t ok u)
  show ?thesis
  proof (cases "\<exists>k r. get_task s t = Some k \<and> phase k = AwaitingViewURL r \<and> ok")
    case True
    then obtain k r where k: "get_task s t = Some k" "phase k = AwaitingViewURL r" "ok"
      by blast
    then have h: "handle s e = upload_succeeded t k u s"
      using ViewURLResponse by (simp add: viewURL_response_def)
    from assms have "x = (t, u) \<or> x \<in> pushed s"
      unfolding h by (simp add: collected_upload_succeeded [OF k(1)])
    moreover have "get_phase s t = Some (AwaitingViewURL r)"
      using k by (simp add: get_phase_def)
    moreover from this have "get_phase (handle s e) t = Some Settled"
      unfolding h by (simp add: get_phase_upload_succeeded)
    ultimately show ?thesis by auto
  next
    case False
    then have "pushed (handle s e) = pushed s"
      using ViewURLResponse
      by (auto simp: viewURL_response_def split: option.splits phase.splits)
    with assms show ?thesis by simp
  qed
qed (use assms in \<open>auto simp: uploadURL_response_def uploadURL_failure_def
       xhr_upload_onprogress_def xhr_onload_def xhr_onerror_def viewURL_failure_def
       split: option.splits phase.splits if_splits\<close>)

lemma collected_step:
  assumes "x \<in> pushed (step s e)"
  shows "x \<in> pushed s \<or>
         ((\<exists>r. get_phase s (fst x) = Some (AwaitingViewURL r)) \<and>
          get_phase (step s e) (fst x) = Some Settled)"
  using collected_handle [of x s e] assms by (simp add: step_def)

lemma settled_urls_initial: "settled_urls initial"
  by (simp add: settled_urls_def pushed_def initial_def)

lemma settled_urls_step:
  assumes "settled_urls s"
  shows "settled_urls (step s e)"
  unfolding settled_urls_def
proof
  fix x
  assume "x \<in> pushed (step s e)"
  then consider "x \<in> pushed s" | "get_phase (step s e) (fst x) = Some Settled"
    using collected_step by blast
  then show "get_phase (step s e) (fst x) = Some Settled"
  proof cases
    case 1
    with assms have "get_phase s (fst x) = Some Settled"
      by (simp add: settled_urls_def)
    then show ?thesis
      by (rule final_phase_step) (simp add: final_def)
  next
    case 2
    then show ?thesis .
  qed
qed

lemma settled_urls_run: "settled_urls s \<Longrightarrow> settled_urls (run s es)"
  unfolding run_def
  by (induction es arbitrary: s) (simp_all add: settled_urls_step)

text \<open>A closed dialog has no files.\<close>

lemma closed_no_files_step: "\<not> dialog_open (step s e) \<Longrightarrow> files (step s e) = []"
  by (auto simp: step_def clear_when_closed_def split: if_splits)

lemma closed_no_files_run:
  "\<not> dialog_open (run initial es) \<Longrightarrow> files (run initial es) = []"
proof (cases es rule: rev_cases)
  case Nil
  then show ?thesis by (simp add: run_def initial_def)
next
  case (snoc es' e)
  assume "\<not> dialog_open (run initial es)"
  with snoc show ?thesis
    by (simp add: run_def closed_no_files_step)
qed

section \<open>Cancelling a transfer\<close>

lemma silent_same: "calls s' = calls s \<Longrightarrow> silent t s s'"
  by (simp add: silent_def)

lemma silent_trans: "silent t s s1 \<Longrightarrow> silent t s1 s2 \<Longrightarrow> silent t s s2"
  unfolding silent_def by fastforce

lemma urls_in_collected:
  assumes "b < length (batches s)"
  shows "set (uploadedUrls (batches s ! b)) \<subseteq> pushed s"
proof
  fix x
  assume "x \<in> set (uploadedUrls (batches s ! b))"
  moreover have "batches s ! b \<in> set (batches s)"
    using assms by simp
  ultimately have "\<exists>y \<in> set (batches s). x \<in> set (uploadedUrls y)"
    by blast
  then show "x \<in> pushed s"
    by (simp add: pushed_def)
qed

lemma silent_after_all:
  assumes "b < length (batches s)" and "t \<notin> fst ` pushed s"
  shows "silent t s (after_all b s)"
proof (cases "uploadedUrls (batches s ! b) = []")
  case True
  then show ?thesis by (simp add: silent_same after_all_def)
next
  case False
  then have "calls (after_all b s) = calls s @ [OnUploadComplete (uploadedUrls (batches s ! b))]"
    by (simp add: after_all_def call_def)
  moreover have "\<not> mentions t (OnUploadComplete (uploadedUrls (batches s ! b)))"
    using urls_in_collected [OF assms(1)] assms(2) by (auto simp: mentions_def)
  ultimately show ?thesis
    unfolding silent_def by simp
qed

lemma silent_settle:
  assumes "fst t' < length (batches s)" and "t \<notin> fst ` pushed s"
  shows "silent t s (settle t' s)"
proof -
  have "silent t (set_phase t' Settled s) (after_all (fst t') (set_phase t' Settled s))"
    using assms by (intro silent_after_all) simp_all
  then have "silent t s (after_all (fst t') (set_phase t' Settled s))"
    by (simp add: silent_def)
  moreover have "silent t s (set_phase t' Settled s)"
    by (simp add: silent_same)
  ultimately show ?thesis
    by (simp add: settle_def Let_def)
qed

lemma silent_upload_failed:
  assumes "get_task s t' = Some k" and "t' \<noteq> t" and "t \<notin> fst ` pushed s"
  shows "silent t s (upload_failed t' k s)"
proof -
  let ?c = "OnError (Some t') (''Failed to upload '' @ file_name (originalFile (task_file k)))"
  let ?s = "call ?c (setFiles_map (file_id (task_file k))
             (\<lambda>f. f\<lparr>status := Error, errorMessage := Some ''Upload failed''\<rparr>) s)"
  have "silent t s ?s"
    unfolding silent_def using assms(2) by (simp add: mentions_def)
  moreover have "silent t ?s (settle t' ?s)"
    using get_task_in_range [OF assms(1)] assms(3) by (intro silent_settle) simp_all
  ultimately have "silent t s (settle t' ?s)"
    by (rule silent_trans)
  then show ?thesis by (simp add: upload_failed_def)
qed

lemma silent_upload_succeeded:
  assumes "get_task s t' = Some k" and "t' \<noteq> t" and "t \<notin> fst ` pushed s"
  shows "silent t s (upload_succeeded t' k u s)"
proof -
  let ?s = "setFiles_map (file_id (task_file k)) (\<lambda>f. f\<lparr>status := Success\<rparr>) (push_url t' u s)"
  have "pushed ?s = insert (t', u) (pushed s)"
    using get_task_in_range [OF assms(1)] by (simp add: collected_push_url)
  with assms(2,3) have "t \<notin> fst ` pushed ?s" by auto
  then have "silent t ?s (settle t' ?s)"
    using get_task_in_range [OF assms(1)] by (intro silent_settle) simp_all
  moreover have "silent t s ?s"
    by (simp add: silent_same)
  ultimately have "silent t s (settle t' ?s)"
    by (rule silent_trans [rotated])
  then show ?thesis by (simp add: upload_succeeded_def)
qed

lemma mentions_onDrop_errors: "c \<in> set (onDrop_errors a r) \<Longrightarrow> \<not> mentions t c"
  by (auto simp: onDrop_errors_def mentions_def)

lemma silent_onDrop: "silent t s (onDrop a r s)"
  unfolding silent_def
  by (rule exI [of _ "onDrop_errors a r"]) (simp add: onDrop_def Let_def mentions_onDrop_errors)

lemma calls_handleUpload [simp]: "calls (handleUpload s) = calls s"
  by (simp add: handleUpload_def Let_def after_all_def new_batch_def)

lemma calls_removeFile [simp]: "calls (removeFile i s) = calls s"
  by (simp add: removeFile_def Let_def split: option.splits)

text \<open>An aborted transfer whose URL was never collected is not mentioned by any later call.\<close>

lemma silent_handle:
  assumes "get_phase s t = Some Aborted" and "t \<notin> fst ` pushed s"
  shows "silent t s (handle s e)"
proof -
  have other: "t' \<noteq> t" if "get_task s t' = Some k" "phase k \<noteq> Aborted" for t' k
    using that assms(1) by (auto simp: get_phase_def)
  show ?thesis
  proof (cases e)
    case (Drop a r)
    then show ?thesis by (simp add: silent_onDrop silent_same)
  next
    case (Remove i)
    then show ?thesis by (simp add: silent_same)
  next
    case ClickUpload
    then show ?thesis by (simp add: silent_same)
  next
    case (SetOpen b)
    then show ?thesis by (simp add: silent_same)
  next
    case (UploadURLResponse t' ok u)
    then show ?thesis
      using assms(2) other [of t']
      by (auto simp: uploadURL_response_def silent_same intro!: silent_upload_failed
          split: option.splits phase.splits)
  next
    case (UploadURLFailure t')
    then show ?thesis
      using assms(2) other [of t']
      by (auto simp: uploadURL_failure_def silent_same intro!: silent_upload_failed
          split: option.splits phase.splits)
  next
    case (XhrProgress t' c l tot)
    then show ?thesis
      by (auto simp: xhr_upload_onprogress_def silent_same split: option.splits phase.splits)
  next
    case (XhrLoad t' st)
    then show ?thesis
      using assms(2) other [of t']
      by (auto simp: xhr_onload_def silent_same intro!: silent_upload_failed
          split: option.splits phase.splits)
  next
    case (XhrError t')
    then show ?thesis
      using assms(2) other [of t']
      by (auto simp: xhr_onerror_def silent_same intro!: silent_upload_failed
          split: option.splits phase.splits)
  next
    case (ViewURLResponse t' ok u)
    then show ?thesis
      using assms(2) other [of t']
      by (auto simp: viewURL_response_def silent_same intro!: silent_upload_succeeded
          split: option.splits phase.splits)
  next
    case (ViewURLFailure t')
    then show ?thesis
      by (auto simp: viewURL_failure_def silent_same split: option.splits phase.splits)
  qed
qed

lemma calls_clear [simp]: "calls (clear_when_closed s) = calls s"
  by (simp add: clear_when_closed_def)

lemma silent_step:
  assumes "get_phase s t = Some Aborted" and "t \<notin> fst ` pushed s"
  shows "silent t s (step s e)"
  using silent_handle [OF assms, of e] by (simp add: step_def silent_def)

lemma uncollected_step:
  assumes "get_phase s t = Some Aborted" and "t \<notin> fst ` pushed s"
  shows "t \<notin> fst ` pushed (step s e)"
proof
  assume "t \<in> fst ` pushed (step s e)"
  then obtain x where x: "x \<in> pushed (step s e)" "fst x = t" by auto
  with collected_step [OF x(1)] assms show False by auto
qed

lemma silent_run:
  assumes "get_phase s t = Some Aborted" and "t \<notin> fst ` pushed s"
  shows "silent t s (run s es)"
  using assms
proof (induction es arbitrary: s)
  case Nil
  then show ?case by (simp add: run_def silent_same)
next
  case (Cons e es)
  have "get_phase (step s e) t = Some Aborted"
    using Cons.prems(1) by (rule final_phase_step) (simp add: final_def)
  moreover have "t \<notin> fst ` pushed (step s e)"
    using Cons.prems by (rule uncollected_step)
  ultimately have "silent t (step s e) (run (step s e) es)"
    by (rule Cons.IH)
  moreover have "silent t s (step s e)"
    using Cons.prems by (rule silent_step)
  ultimately have "silent t s (run (step s e) es)"
    by (rule silent_trans [rotated])
  then show ?case by (simp add: run_def)
qed

lemma find_Some_mem: "find P xs = Some x \<Longrightarrow> x \<in> set xs"
  by (auto simp: find_Some_iff)

text \<open>
  Removing a file whose status is \<^verbatim>\<open>uploading\<close>. In a state the component can reach, let
  \<^verbatim>\<open>removeFile\<close> find a file whose status is \<^verbatim>\<open>uploading\<close> and whose request is being
  sent. Then the removal aborts the request, no file with that identifier is left in the
  list, the transfer stays aborted whatever happens later, and no call made from then
  on, neither a result nor a failure notice, mentions the transfer.
\<close>

theorem cancel_while_sending:
  assumes found: "find (\<lambda>f. file_id f = fileId) (files (run initial es)) = Some f"
    and handle: "xhr f = Some t"
    and uploading: "status f = Uploading"
    and sending: "get_phase (run initial es) t = Some (Sending uploadURL)"
  shows "get_phase (run initial (es @ [Remove fileId])) t = Some Aborted \<and>
         fileId \<notin> file_id ` set (files (run initial (es @ [Remove fileId]))) \<and>
         (\<forall>later. get_phase (run initial (es @ Remove fileId # later)) t = Some Aborted \<and>
            (\<exists>new. calls (run initial (es @ Remove fileId # later)) = calls (run initial es) @ new \<and>
               (\<forall>c \<in> set new. \<not> mentions t c)))"
proof -
  let ?s = "run initial es"
  let ?s' = "step ?s (Remove fileId)"
  have "files ?s \<noteq> []"
    using find_Some_mem [OF found] by auto
  then have opened: "dialog_open ?s"
    using closed_no_files_run [of es] by auto
  have "get_phase (xhr_abort t ?s) t = Some Aborted"
    using sending by (simp add: get_phase_xhr_abort)
  then have "get_phase (removeFile fileId ?s) t = Some Aborted"
    using found handle uploading by (simp add: removeFile_def Let_def)
  with opened have aborted: "get_phase ?s' t = Some Aborted"
    by (simp add: step_def)
  have "fileId \<notin> file_id ` set (files (removeFile fileId ?s))"
    by (auto simp: removeFile_def Let_def)
  with opened have removed: "fileId \<notin> file_id ` set (files ?s')"
    by (auto simp: step_def clear_when_closed_def)
  have "settled_urls ?s"
    using settled_urls_initial by (rule settled_urls_run)
  with sending have "t \<notin> fst ` pushed ?s"
    by (auto simp: settled_urls_def)
  then have uncollected: "t \<notin> fst ` pushed ?s'"
    using opened by (simp add: step_def)
  have same: "calls ?s' = calls ?s"
    using opened by (simp add: step_def)
  have later: "get_phase (run ?s' later) t = Some Aborted \<and>
      (\<exists>new. calls (run ?s' later) = calls ?s @ new \<and> (\<forall>c \<in> set new. \<not> mentions t c))" for later
  proof
    show "get_phase (run ?s' later) t = Some Aborted"
      using aborted by (rule final_phase_run) (simp add: final_def)
    have "silent t ?s' (run ?s' later)"
      using aborted uncollected by (rule silent_run)
    then show "\<exists>new. calls (run ?s' later) = calls ?s @ new \<and> (\<forall>c \<in> set new. \<not> mentions t c)"
      by (simp add: silent_def same)
  qed
  have r1: "run ?s' [] = ?s'"
    by (simp add: run_def)
  have r2: "run initial (es @ Remove fileId # later) = run ?s' later" for later
    by (simp add: run_def)
  show ?thesis
    unfolding r2 r1 using aborted removed later by blast
qed

section \<open>A batch that cannot finish\<close>

text \<open>
  \<^verbatim>\<open>Promise.all\<close> resolves when every promise of the batch is fulfilled. A transfer whose
  promise will never settle keeps the batch from finishing, so the URLs the batch has
  collected are never reported.
\<close>

lemma run_append: "run s (es @ es') = run (run s es) es'"
  by (simp add: run_def)

lemma local_urls_cong:
  assumes "map uploadedUrls (batches s') = map uploadedUrls (batches s)"
  shows "local_urls s' = local_urls s"
proof -
  have len: "length (batches s') = length (batches s)"
    using assms by (rule map_eq_imp_length_eq)
  have "uploadedUrls (batches s' ! b) = uploadedUrls (batches s ! b)" if "b < length (batches s)" for b
    using that len nth_map [of b "batches s'" uploadedUrls] nth_map [of b "batches s" uploadedUrls] assms
    by simp
  with len show ?thesis
    by (simp add: local_urls_def)
qed

lemma local_urls_set_phase [simp]: "local_urls (set_phase t p s) = local_urls s"
  by (rule local_urls_cong) (simp add: set_phase_def map_urls_update_tasks)

lemma local_urls_frame [simp]:
  "local_urls (setFiles_map i g s) = local_urls s"
  "local_urls (call c s) = local_urls s"
  "local_urls (after_all b s) = local_urls s"
  "local_urls (clear_when_closed s) = local_urls s"
  "local_urls (s\<lparr>isUploading := x\<rparr>) = local_urls s"
  "local_urls (s\<lparr>files := fs\<rparr>) = local_urls s"
  "local_urls (s\<lparr>dialog_open := x\<rparr>) = local_urls s"
  by (simp_all add: local_urls_def setFiles_map_def call_def after_all_def Let_def
      clear_when_closed_def)

lemma local_urls_push_url:
  assumes "local_urls s"
  shows "local_urls (push_url t u s)"
  unfolding local_urls_def
proof (intro ballI)
  fix b x
  assume b: "b \<in> {..<length (batches (push_url t u s))}"
    and x: "x \<in> set (uploadedUrls (batches (push_url t u s) ! b))"
  from b have lt: "b < length (batches s)"
    by (simp add: push_url_def)
  show "fst (fst x) = b"
  proof (cases "b = fst t")
    case True
    with lt x have "x = (t, u) \<or> x \<in> set (uploadedUrls (batches s ! b))"
      by (auto simp: push_url_def)
    with True lt assms show ?thesis
      by (auto simp: local_urls_def)
  next
    case False
    with lt x have "x \<in> set (uploadedUrls (batches s ! b))"
      by (simp add: push_url_def)
    with lt assms show ?thesis
      by (auto simp: local_urls_def)
  qed
qed

lemma local_urls_settle [simp]: "local_urls (settle t s) = local_urls s"
  by (simp add: settle_def Let_def)

lemma local_urls_upload_failed [simp]: "local_urls (upload_failed t k s) = local_urls s"
  by (simp add: upload_failed_def)

lemma local_urls_upload_succeeded:
  "local_urls s \<Longrightarrow> local_urls (upload_succeeded t k u s)"
  by (simp add: upload_succeeded_def local_urls_push_url)

lemma local_urls_handleUpload: "local_urls s \<Longrightarrow> local_urls (handleUpload s)"
  by (auto simp: handleUpload_def Let_def local_urls_def new_batch_def after_all_def call_def
      nth_append)

lemma local_urls_onDrop [simp]: "local_urls (onDrop a r s) = local_urls s"
  by (simp add: onDrop_def Let_def local_urls_def)

lemma local_urls_xhr_abort [simp]: "local_urls (xhr_abort t s) = local_urls s"
  by (simp add: xhr_abort_def split: option.splits phase.splits)

lemma local_urls_removeFile [simp]: "local_urls (removeFile i s) = local_urls s"
  by (simp add: removeFile_def Let_def split: option.splits)

lemma local_urls_handle: "local_urls s \<Longrightarrow> local_urls (handle s e)"
  by (cases e)
    (auto simp: uploadURL_response_def uploadURL_failure_def xhr_upload_onprogress_def
      xhr_onload_def xhr_onerror_def viewURL_response_def viewURL_failure_def
      local_urls_handleUpload local_urls_upload_succeeded
      split: option.splits phase.splits)

lemma local_urls_step: "local_urls s \<Longrightarrow> local_urls (step s e)"
  by (simp add: step_def local_urls_handle)

lemma local_urls_initial: "local_urls initial"
  by (simp add: local_urls_def initial_def)

text \<open>A batch with a transfer that is not settled is not finished.\<close>

lemma unsettled_not_all_settled:
  assumes "get_phase s t0 = Some p0" and "p0 \<noteq> Settled"
  shows "\<not> all_settled (batches s ! fst t0)"
proof
  assume a: "all_settled (batches s ! fst t0)"
  from assms(1) obtain k where k: "get_task s t0 = Some k" "phase k = p0"
    by (auto simp: get_phase_def)
  then have "snd t0 < length (tasks (batches s ! fst t0))" "tasks (batches s ! fst t0) ! snd t0 = k"
    by (auto simp: get_task_def js_index_def split: option.splits if_splits)
  with a have "phase k = Settled"
    by (auto simp: all_settled_def list_all_length)
  with k assms(2) show False by simp
qed

lemma blocked_after_all:
  assumes "b < length (batches s)" and "local_urls s" and "b \<noteq> fst t"
  shows "silent t s (after_all b s)"
proof (cases "uploadedUrls (batches s ! b) = []")
  case True
  then show ?thesis by (simp add: silent_same after_all_def)
next
  case False
  then have "calls (after_all b s) = calls s @ [OnUploadComplete (uploadedUrls (batches s ! b))]"
    by (simp add: after_all_def call_def)
  moreover have "\<not> mentions t (OnUploadComplete (uploadedUrls (batches s ! b)))"
    using assms by (auto simp: mentions_def local_urls_def)
  ultimately show ?thesis
    unfolding silent_def by simp
qed

lemma blocked_settle:
  assumes "get_phase s t0 = Some p0" and "p0 \<noteq> Settled" and "fst t = fst t0"
    and "local_urls s" and "t' \<noteq> t0" and "fst t' < length (batches s)"
  shows "silent t s (settle t' s)"
proof (cases "fst t' = fst t0")
  case True
  have "get_phase (set_phase t' Settled s) t0 = Some p0"
    using assms(1,5) by (simp add: get_phase_set_phase)
  then have "\<not> all_settled (batches (set_phase t' Settled s) ! fst t0)"
    using assms(2) by (rule unsettled_not_all_settled)
  with True have "settle t' s = set_phase t' Settled s"
    by (simp add: settle_def Let_def)
  then show ?thesis by (simp add: silent_same)
next
  case False
  have "silent t (set_phase t' Settled s) (after_all (fst t') (set_phase t' Settled s))"
    using assms False by (intro blocked_after_all) simp_all
  then have "silent t s (after_all (fst t') (set_phase t' Settled s))"
    by (simp add: silent_def)
  moreover have "silent t s (set_phase t' Settled s)"
    by (simp add: silent_same)
  ultimately show ?thesis
    by (simp add: settle_def Let_def)
qed

lemma blocked_upload_failed:
  assumes "get_phase s t0 = Some p0" and "p0 \<noteq> Settled" and "fst t = fst t0"
    and "local_urls s" and "t' \<noteq> t0" and "t' \<noteq> t" and "get_task s t' = Some k"
  shows "silent t s (upload_failed t' k s)"
proof -
  let ?c = "OnError (Some t') (''Failed to upload '' @ file_name (originalFile (task_file k)))"
  let ?s = "call ?c (setFiles_map (file_id (task_file k))
             (\<lambda>f. f\<lparr>status := Error, errorMessage := Some ''Upload failed''\<rparr>) s)"
  have "silent t s ?s"
    unfolding silent_def using assms(6) by (simp add: mentions_def)
  moreover have "silent t ?s (settle t' ?s)"
    using assms(1-5) get_task_in_range [OF assms(7)]
    by (intro blocked_settle [where ?t0.0 = t0 and ?p0.0 = p0]) simp_all
  ultimately have "silent t s (settle t' ?s)"
    by (rule silent_trans)
  then show ?thesis by (simp add: upload_failed_def)
qed

lemma blocked_upload_succeeded:
  assumes "get_phase s t0 = Some p0" and "p0 \<noteq> Settled" and "fst t = fst t0"
    and "local_urls s" and "t' \<noteq> t0" and "get_task s t' = Some k"
  shows "silent t s (upload_succeeded t' k u s)"
proof -
  let ?s = "setFiles_map (file_id (task_file k)) (\<lambda>f. f\<lparr>status := Success\<rparr>) (push_url t' u s)"
  have "silent t ?s (settle t' ?s)"
    using assms(1-5) get_task_in_range [OF assms(6)]
    by (intro blocked_settle [where ?t0.0 = t0 and ?p0.0 = p0]) (simp_all add: local_urls_push_url)
  moreover have "silent t s ?s"
    by (simp add: silent_same)
  ultimately have "silent t s (settle t' ?s)"
    by (rule silent_trans [rotated])
  then show ?thesis by (simp add: upload_succeeded_def)
qed

text \<open>
  While a transfer of its batch is in a final phase other than settled, a transfer in a
  final phase is not mentioned by any call.
\<close>

lemma blocked_handle:
  assumes "get_phase s t0 = Some p0" and "final p0" and "p0 \<noteq> Settled"
    and "get_phase s t = Some q" and "final q" and "fst t = fst t0" and "local_urls s"
  shows "silent t s (handle s e)"
proof -
  have other: "t' \<noteq> t0 \<and> t' \<noteq> t" if "get_task s t' = Some k" "\<not> final (phase k)" for t' k
    using that assms(1,2,4,5) by (auto simp: get_phase_def)
  note fail = blocked_upload_failed [OF assms(1,3,6,7)]
  note succeed = blocked_upload_succeeded [OF assms(1,3,6,7)]
  show ?thesis
  proof (cases e)
    case (Drop a r)
    then show ?thesis by (simp add: silent_onDrop silent_same)
  next
    case (Remove i)
    then show ?thesis by (simp add: silent_same)
  next
    case ClickUpload
    then show ?thesis by (simp add: silent_same)
  next
    case (SetOpen b)
    then show ?thesis by (simp add: silent_same)
  next
    case (UploadURLResponse t' ok u)
    then show ?thesis
      using other [of t']
      by (auto simp: uploadURL_response_def silent_same final_def intro!: fail
          split: option.splits phase.splits)
  next
    case (UploadURLFailure t')
    then show ?thesis
      using other [of t']
      by (auto simp: uploadURL_failure_def silent_same final_def intro!: fail
          split: option.splits phase.splits)
  next
    case (XhrProgress t' c l tot)
    then show ?thesis
      by (auto simp: xhr_upload_onprogress_def silent_same split: option.splits phase.splits)
  next
    case (XhrLoad t' st)
    then show ?thesis
      using other [of t']
      by (auto simp: xhr_onload_def silent_same final_def intro!: fail
          split: option.splits phase.splits)
  next
    case (XhrError t')
    then show ?thesis
      using other [of t']
      by (auto simp: xhr_onerror_def silent_same final_def intro!: fail
          split: option.splits phase.splits)
  next
    case (ViewURLResponse t' ok u)
    then show ?thesis
      using other [of t']
      by (auto simp: viewURL_response_def silent_same final_def intro!: succeed
          split: option.splits phase.splits)
  next
    case (ViewURLFailure t')
    then show ?thesis
      by (auto simp: viewURL_failure_def silent_same split: option.splits phase.splits)
  qed
qed

lemma blocked_step:
  assumes "get_phase s t0 = Some p0" and "final p0" and "p0 \<noteq> Settled"
    and "get_phase s t = Some q" and "final q" and "fst t = fst t0" and "local_urls s"
  shows "silent t s (step s e)"
  using blocked_handle [OF assms, of e] by (simp add: step_def silent_def)

lemma blocked_run:
  assumes "get_phase s t0 = Some p0" and "final p0" and "p0 \<noteq> Settled"
    and "get_phase s t = Some q" and "final q" and "fst t = fst t0" and "local_urls s"
  shows "silent t s (run s es)"
  using assms(1,4,7)
proof (induction es arbitrary: s)
  case Nil
  then show ?case by (simp add: run_def silent_same)
next
  case (Cons e es)
  have a: "get_phase (step s e) t0 = Some p0"
    using Cons.prems(1) assms(2) by (rule final_phase_step)
  have b: "get_phase (step s e) t = Some q"
    using Cons.prems(2) assms(5) by (rule final_phase_step)
  have c: "local_urls (step s e)"
    using Cons.prems(3) by (rule local_urls_step)
  have "silent t (step s e) (run (step s e) es)"
    using a b c by (rule Cons.IH)
  moreover have "silent t s (step s e)"
    using Cons.prems(1) assms(2,3) Cons.prems(2) assms(5,6) Cons.prems(3) by (rule blocked_step)
  ultimately have "silent t s (run (step s e) es)"
    by (rule silent_trans [rotated])
  then show ?case by (simp add: run_def)
qed

lemma local_urls_run: "local_urls s \<Longrightarrow> local_urls (run s es)"
  unfolding run_def
  by (induction es arbitrary: s) (simp_all add: local_urls_step)


text \<open>
  So from a state without calls that the component can reach, where a transfer of a batch
  is in a final phase other than settled, no call ever mentions a transfer of that batch
  that is in a final phase.
\<close>

lemma blocked_quiet:
  assumes "get_phase (run initial es) t0 = Some p0" and "final p0" and "p0 \<noteq> Settled"
    and "get_phase (run initial es) t = Some q" and "final q" and "fst t = fst t0"
    and "calls (run initial es) = []"
  shows "list_all (\<lambda>c. \<not> mentions t c) (calls (run initial (es @ later)))"
proof -
  have "local_urls (run initial es)"
    using local_urls_initial by (rule local_urls_run)
  with assms(1-6) have "silent t (run initial es) (run (run initial es) later)"
    by (rule blocked_run)
  then show ?thesis
    using assms(7) by (auto simp: silent_def run_append list_all_iff)
qed

section \<open>The example batch, run\<close>

lemmas example_eval = photo_def clip_def photo_url_def clip_url_def two_sending_def
  video_view_refused_def video_view_unreachable_def image_done_video_refused_def
  image_done_video_cancelled_def

lemmas run_eval = machine_eval validation_eval string_eval example_eval

subsection \<open>Starting a batch\<close>



subsection \<open>Progress\<close>



subsection \<open>Cancelling\<close>

theorem cancel_while_sending_witness:
  "find (\<lambda>f. file_id f = ''b.mp4-1000'')
     (files (run initial (two_sending @ [XhrProgress (0, 1) True 1024 2048]))) =
     Some ((fileWithPreview clip 1000)
             \<lparr>uploadProgress := Some 50, status := Uploading, xhr := Some (0, 1)\<rparr>) \<and>
   get_phase (run initial (two_sending @ [XhrProgress (0, 1) True 1024 2048])) (0, 1) =
     Some (Sending clip_url) \<and>
   get_phase (run initial ((two_sending @ [XhrProgress (0, 1) True 1024 2048]) @
     [Remove ''b.mp4-1000''])) (0, 1) = Some Aborted \<and>
   map file_id (files (run initial ((two_sending @ [XhrProgress (0, 1) True 1024 2048]) @
     [Remove ''b.mp4-1000'']))) = [''a.png-1000''] \<and>
   (\<forall>later. get_phase (run initial ((two_sending @ [XhrProgress (0, 1) True 1024 2048]) @
     Remove ''b.mp4-1000'' # later)) (0, 1) = Some Aborted)"
proof -
  have found: "find (\<lambda>f. file_id f = ''b.mp4-1000'')
     (files (run initial (two_sending @ [XhrProgress (0, 1) True 1024 2048]))) =
     Some ((fileWithPreview clip 1000)
             \<lparr>uploadProgress := Some 50, status := Uploading, xhr := Some (0, 1)\<rparr>)"
    by (simp add: run_eval)
  have h: "xhr ((fileWithPreview clip 1000)
             \<lparr>uploadProgress := Some 50, status := Uploading, xhr := Some (0, 1)\<rparr>) = Some (0, 1)"
    "status ((fileWithPreview clip 1000)
             \<lparr>uploadProgress := Some 50, status := Uploading, xhr := Some (0, 1)\<rparr>) = Uploading"
    by simp_all
  have sending: "get_phase (run initial (two_sending @ [XhrProgress (0, 1) True 1024 2048])) (0, 1) =
     Some (Sending clip_url)"
    by (simp add: run_eval)
  have files: "map file_id (files (run initial ((two_sending @ [XhrProgress (0, 1) True 1024 2048]) @
     [Remove ''b.mp4-1000'']))) = [''a.png-1000'']"
    by (simp add: run_eval)
  show ?thesis
    using found sending files cancel_while_sending [OF found h sending]
    by blast
qed

text \<open>
  Claim C7. Cancelling a file whose transfer is in flight is meant to abort the
  connection and to keep the file out of every later result and failure notice. In the
  example both requests are being sent and no progress event has arrived: both files
  are still pending, each with its request in \<^verbatim>\<open>xhr\<close>. Removing the video takes it out
  of the list but does not abort its request, because \<^verbatim>\<open>removeFile\<close> aborts only a file
  whose status is \<^verbatim>\<open>uploading\<close>: the request goes on being sent. When both transfers
  finish, the result holds the video's URL; when the video's transfer fails instead, the
  failure of the removed file is reported.
\<close>

theorem cancel_before_progress_is_not_aborted:
  "map status (files (run initial two_sending)) = [Pending, Pending] \<and>
   map xhr (files (run initial two_sending)) = [Some (0, 0), Some (0, 1)] \<and>
   get_phase (run initial two_sending) (0, 1) = Some (Sending clip_url) \<and>
   get_phase (run initial (two_sending @ [Remove ''b.mp4-1000''])) (0, 1) = Some (Sending clip_url) \<and>
   map file_id (files (run initial (two_sending @ [Remove ''b.mp4-1000'']))) = [''a.png-1000''] \<and>
   calls (run initial (two_sending @
     [Remove ''b.mp4-1000'', XhrLoad (0, 0) 200, XhrLoad (0, 1) 200,
      ViewURLResponse (0, 0) True ''https://view/a.png'',
      ViewURLResponse (0, 1) True ''https://view/b.mp4''])) =
     [OnUploadComplete [((0, 0), ''https://view/a.png''), ((0, 1), ''https://view/b.mp4'')]] \<and>
   calls (run initial (two_sending @ [Remove ''b.mp4-1000'', XhrError (0, 1)])) =
     [OnError (Some (0, 1)) ''Failed to upload b.mp4'']"
  by (simp add: run_eval)

subsection \<open>A view-URL exchange that fails\<close>

lemma view_failure_state:
  "map status (files (run initial video_view_refused)) = [Pending, Uploading]"
  "calls (run initial video_view_refused) = []"
  "get_phase (run initial video_view_refused) (0, 1) = Some Unsettled"
  "calls (run initial video_view_unreachable) = []"
  "get_phase (run initial video_view_unreachable) (0, 1) = Some Unsettled"
  by (simp_all add: run_eval)

text \<open>
  Claim C1. A file whose bytes were transferred and whose view-URL exchange fails is
  meant to end in \<^verbatim>\<open>error\<close>. The video of the example is sent in full (status 200) and
  the view-URL request is answered with a response that is not ok: the file's status is
  still \<^verbatim>\<open>uploading\<close>, no failure was reported, and the transfer is unsettled. Whatever
  happens later, it stays unsettled and no call mentions it: no failure of the file is
  ever reported. The same holds when the view-URL request fails on the network.
\<close>

theorem view_url_failure_never_settles:
  "map status (files (run initial video_view_refused)) = [Pending, Uploading] \<and>
   calls (run initial video_view_refused) = [] \<and>
   (\<forall>later.
      get_phase (run initial (video_view_refused @ later)) (0, 1) = Some Unsettled \<and>
      list_all (\<lambda>c. \<not> mentions (0, 1) c) (calls (run initial (video_view_refused @ later)))) \<and>
   (\<forall>later.
      get_phase (run initial (video_view_unreachable @ later)) (0, 1) = Some Unsettled \<and>
      list_all (\<lambda>c. \<not> mentions (0, 1) c) (calls (run initial (video_view_unreachable @ later))))"
proof -
  have f: "final Unsettled" "Unsettled \<noteq> Settled"
    by (simp_all add: final_def)
  note s = view_failure_state
  have a: "get_phase (run initial (video_view_refused @ later)) (0, 1) = Some Unsettled" for later
    by (subst run_append) (rule final_phase_run [OF s(3) f(1)])
  have b: "list_all (\<lambda>c. \<not> mentions (0, 1) c) (calls (run initial (video_view_refused @ later)))"
    for later
    using s(3) f s(3) f(1) refl s(2) by (rule blocked_quiet)
  have c: "get_phase (run initial (video_view_unreachable @ later)) (0, 1) = Some Unsettled" for later
    by (subst run_append) (rule final_phase_run [OF s(5) f(1)])
  have d: "list_all (\<lambda>c. \<not> mentions (0, 1) c) (calls (run initial (video_view_unreachable @ later)))"
    for later
    using s(5) f s(5) f(1) refl s(4) by (rule blocked_quiet)
  from s(1,2) a b c d show ?thesis by blast
qed

lemma sibling_state:
  "map status (files (run initial image_done_video_refused)) = [Success, Uploading]"
  "map uploadedUrls (batches (run initial image_done_video_refused)) =
     [[((0, 0), ''https://view/a.png'')]]"
  "calls (run initial image_done_video_refused) = []"
  "isUploading (run initial image_done_video_refused)"
  "get_phase (run initial image_done_video_refused) (0, 0) = Some Settled"
  "get_phase (run initial image_done_video_refused) (0, 1) = Some Unsettled"
  by (simp_all add: run_eval)

text \<open>
  Claim C2. The result of a batch is meant to hold the URLs of the files that succeeded,
  whatever happens to the others. In the example the image succeeds and its view URL is
  collected; the video is sent in full and its view-URL exchange fails. Every transfer
  of the batch has had its last answer, yet no result was reported, and \<^verbatim>\<open>isUploading\<close>
  is still set: \<^verbatim>\<open>Promise.all\<close> waits for the video's transfer. Whatever happens
  later, that transfer stays unsettled and no call mentions the image's transfer: its
  URL is never part of a result.
\<close>

theorem view_url_failure_withholds_result:
  "map status (files (run initial image_done_video_refused)) = [Success, Uploading] \<and>
   map uploadedUrls (batches (run initial image_done_video_refused)) =
     [[((0, 0), ''https://view/a.png'')]] \<and>
   calls (run initial image_done_video_refused) = [] \<and>
   isUploading (run initial image_done_video_refused) \<and>
   (\<forall>later.
      get_phase (run initial (image_done_video_refused @ later)) (0, 1) = Some Unsettled \<and>
      list_all (\<lambda>c. \<not> mentions (0, 0) c)
        (calls (run initial (image_done_video_refused @ later))))"
proof -
  have f: "final Unsettled" "Unsettled \<noteq> Settled" "final Settled"
    by (simp_all add: final_def)
  note s = sibling_state
  have a: "get_phase (run initial (image_done_video_refused @ later)) (0, 1) = Some Unsettled"
    for later
    by (subst run_append) (rule final_phase_run [OF s(6) f(1)])
  have b: "list_all (\<lambda>c. \<not> mentions (0, 0) c)
      (calls (run initial (image_done_video_refused @ later)))" for later
    using s(6) f(1,2) s(5) f(3) _ s(3) by (rule blocked_quiet) simp
  from s(1,2,3,4) a b show ?thesis by blast
qed

subsection \<open>A cancelled file and its siblings\<close>

lemma cancelled_state:
  "map status (files (run initial image_done_video_cancelled)) = [Success]"
  "map uploadedUrls (batches (run initial image_done_video_cancelled)) =
     [[((0, 0), ''https://view/a.png'')]]"
  "calls (run initial image_done_video_cancelled) = []"
  "isUploading (run initial image_done_video_cancelled)"
  "get_phase (run initial image_done_video_cancelled) (0, 0) = Some Settled"
  "get_phase (run initial image_done_video_cancelled) (0, 1) = Some Aborted"
  by (simp_all add: run_eval)

text \<open>
  Claim C3. A batch is meant to be reported finished once every file that reached
  \<^verbatim>\<open>uploading\<close> is in a terminal state, cancelled files not counting. In the example both
  files reach \<^verbatim>\<open>uploading\<close>, the video is cancelled while it is sent, and the image
  succeeds. The only file left is in \<^verbatim>\<open>success\<close>, yet \<^verbatim>\<open>onUploadComplete\<close> was not
  called and \<^verbatim>\<open>isUploading\<close> is still set: \<^verbatim>\<open>Promise.all\<close> waits for the aborted
  transfer. Whatever happens later, that transfer stays aborted and no call mentions the
  image's transfer: the completion of the batch is never reported.
\<close>

theorem aborted_transfer_blocks_completion:
  "map status (files (run initial image_done_video_cancelled)) = [Success] \<and>
   map uploadedUrls (batches (run initial image_done_video_cancelled)) =
     [[((0, 0), ''https://view/a.png'')]] \<and>
   calls (run initial image_done_video_cancelled) = [] \<and>
   isUploading (run initial image_done_video_cancelled) \<and>
   (\<forall>later.
      get_phase (run initial (image_done_video_cancelled @ later)) (0, 1) = Some Aborted \<and>
      list_all (\<lambda>c. \<not> mentions (0, 0) c)
        (calls (run initial (image_done_video_cancelled @ later))))"
proof -
  have f: "final Aborted" "Aborted \<noteq> Settled" "final Settled"
    by (simp_all add: final_def)
  note s = cancelled_state
  have a: "get_phase (run initial (image_done_video_cancelled @ later)) (0, 1) = Some Aborted"
    for later
    by (subst run_append) (rule final_phase_run [OF s(6) f(1)])
  have b: "list_all (\<lambda>c. \<not> mentions (0, 0) c)
      (calls (run initial (image_done_video_cancelled @ later)))" for later
    using s(6) f(1,2) s(5) f(3) _ s(3) by (rule blocked_quiet) simp
  from s(1,2,3,4) a b show ?thesis by blast
qed

end
